theory Spec2Isabelle
  imports Main
begin

section \<open>Messages and content blocks\<close>

text \<open>
  Modelled from the spec: \<^verbatim>\<open>types/messages.ts\<close> and \<^verbatim>\<open>errors.ts\<close> are not among the sources.
  The types below are the message, the content blocks and the errors as the specification
  describes them and as the conversation manager and the agent loop use them: a message
  has a role, content blocks in order and an optional author tag; a content block is a
  tagged union (the code dispatches on \<^verbatim>\<open>block.type\<close>); an error is a JavaScript \<^verbatim>\<open>Error\<close>, a
  class and a message.
\<close>

datatype error =
    ContextWindowOverflowError string
  | ConcurrentInvocationError string
  | Error string

datatype json_value =
    JNull
  | JBool bool
  | JNum int
  | JStr string
  | JArr "json_value list"
  | JObj "(string \<times> json_value) list"

datatype role = User | Assistant

datatype tool_result_status = StatusSuccess | StatusError

text \<open>\<^verbatim>\<open>ToolResultContent = TextBlock | JsonBlock\<close>.\<close>

datatype tool_result_content = TextContent string | JsonContent json_value

text \<open>
  \<^verbatim>\<open>ToolUseBlock {name, toolUseId, input}\<close> and
  \<^verbatim>\<open>ToolResultBlock {toolUseId, status, content, error?}\<close>.  The fields of the result
  block are prefixed, since a message has a \<^verbatim>\<open>content\<close> of its own.
\<close>

record tool_use =
  name :: string
  useId :: string
  input :: json_value

record tool_result =
  toolUseId :: string
  status :: tool_result_status
  resultContent :: "tool_result_content list"
  resultError :: "error option"

datatype content_block =
    TextBlock string
  | ToolUseBlock tool_use
  | ToolResultBlock tool_result
  | ReasoningBlock string
  | CachePointBlock

record message =
  role :: role
  content :: "content_block list"
  author :: "string option"

fun isToolResultBlock :: "content_block \<Rightarrow> bool" where
  "isToolResultBlock (ToolResultBlock _) = True"
| "isToolResultBlock _ = False"

fun isToolUseBlock :: "content_block \<Rightarrow> bool" where
  "isToolUseBlock (ToolUseBlock _) = True"
| "isToolUseBlock _ = False"

text \<open>\<^verbatim>\<open>message.content.some((block) => block.type === 'toolResultBlock')\<close> and its
  tool-use twin.\<close>

definition hasToolResult :: "message \<Rightarrow> bool" where
  "hasToolResult m = list_ex isToolResultBlock (content m)"

definition hasToolUse :: "message \<Rightarrow> bool" where
  "hasToolUse m = list_ex isToolUseBlock (content m)"

section \<open>The sliding window conversation manager\<close>

record config =
  windowSize :: int
  shouldTruncateResults :: bool

text \<open>The constructor's defaults: a window of 40 messages, truncation enabled.\<close>

definition defaultConfig :: config where
  "defaultConfig = \<lparr>windowSize = 40, shouldTruncateResults = True\<rparr>"

definition toolResultTooLargeMessage :: string where
  "toolResultTooLargeMessage = ''The tool result was too large!''"

subsection \<open>truncateToolResults\<close>

text \<open>The first loop of \<^verbatim>\<open>truncateToolResults\<close> stops at the first tool-result block of
  the message.\<close>

fun firstToolResult :: "content_block list \<Rightarrow> tool_result option" where
  "firstToolResult [] = None"
| "firstToolResult (ToolResultBlock r # bs) = Some r"
| "firstToolResult (b # bs) = firstToolResult bs"

text \<open>\<^verbatim>\<open>firstContent && firstContent.type === 'textBlock' ? firstContent.text : ''\<close>\<close>

fun contentText :: "tool_result_content list \<Rightarrow> string" where
  "contentText (TextContent t # cs) = t"
| "contentText cs = ''''"

text \<open>The \<^verbatim>\<open>map\<close> callback: a tool-result block is replaced by a new error result that
  keeps only the correlation id; every other block is kept.\<close>

fun truncateBlock :: "content_block \<Rightarrow> content_block" where
  "truncateBlock (ToolResultBlock r) =
     ToolResultBlock \<lparr>toolUseId = toolUseId r, status = StatusError,
       resultContent = [TextContent toolResultTooLargeMessage], resultError = None\<rparr>"
| "truncateBlock b = b"

text \<open>
  The array is mutated in place; the model returns the flag together with the new array.
  The replacement message is built from \<^verbatim>\<open>role\<close> and \<^verbatim>\<open>content\<close> only, so it has no author.
\<close>

definition truncateToolResults :: "message list \<Rightarrow> int \<Rightarrow> bool \<times> message list" where
  "truncateToolResults messages msgIdx =
     (if msgIdx \<ge> int (length messages) \<or> msgIdx < 0 then (False, messages)
      else
        let msg = messages ! nat msgIdx in
        (case firstToolResult (content msg) of
           None \<Rightarrow> (False, messages)
         | Some r \<Rightarrow>
             if status r = StatusError \<and> contentText (resultContent r) = toolResultTooLargeMessage
             then (False, messages)
             else (True, messages[nat msgIdx :=
                     \<lparr>role = role msg, content = map truncateBlock (content msg),
                      author = None\<rparr>])))"

subsection \<open>findLastMessageWithToolResults\<close>

text \<open>The backward loop \<^verbatim>\<open>for (idx = length - 1; idx >= 0; idx--)\<close>; the argument counts
  the messages still to visit, so the message visited is the one at \<open>idx\<close>.\<close>

fun findLastFrom :: "message list \<Rightarrow> nat \<Rightarrow> nat option" where
  "findLastFrom messages 0 = None"
| "findLastFrom messages (Suc idx) =
     (if hasToolResult (messages ! idx) then Some idx else findLastFrom messages idx)"

definition findLastMessageWithToolResults :: "message list \<Rightarrow> nat option" where
  "findLastMessageWithToolResults messages = findLastFrom messages (length messages)"

subsection \<open>reduceContext\<close>

text \<open>
  The \<^verbatim>\<open>while (trimIndex < messages.length)\<close> loop.  A message with a tool-result block is
  skipped; so is a message with a tool-use block when the next message is missing or has
  no tool-result block.  Correlation ids are not looked at.
\<close>

function findTrimIndex :: "message list \<Rightarrow> nat \<Rightarrow> nat" where
  "findTrimIndex messages trimIndex =
     (if trimIndex < length messages then
        (if hasToolResult (messages ! trimIndex) then findTrimIndex messages (trimIndex + 1)
         else if hasToolUse (messages ! trimIndex) \<and>
                 \<not> (trimIndex + 1 < length messages \<and> hasToolResult (messages ! (trimIndex + 1)))
         then findTrimIndex messages (trimIndex + 1)
         else trimIndex)
      else trimIndex)"
  by pat_completeness auto
termination
  by (relation "measure (\<lambda>(messages, trimIndex). length messages - trimIndex)") auto

declare findTrimIndex.simps [simp del]

text \<open>Phase 2 of \<^verbatim>\<open>reduceContext\<close> (from the computation of \<^verbatim>\<open>trimIndex\<close> to the
  \<^verbatim>\<open>splice\<close>).  The window size is a message count, an integer.\<close>

definition initialTrimIndex :: "int \<Rightarrow> message list \<Rightarrow> nat" where
  "initialTrimIndex ws messages =
     (if int (length messages) \<le> ws then 2 else nat (int (length messages) - ws))"

definition trimMessages :: "int \<Rightarrow> message list \<Rightarrow> error + message list" where
  "trimMessages ws messages =
     (let trimIndex = findTrimIndex messages (initialTrimIndex ws messages) in
      if trimIndex \<ge> length messages
      then Inl (ContextWindowOverflowError ''Unable to trim conversation context!'')
      else Inr (drop trimIndex messages))"

text \<open>\<^verbatim>\<open>reduceContext\<close>: Phase 1 (truncate the last message with tool results) returns
  when it changed something; otherwise Phase 2 trims.\<close>

definition reduceContext :: "config \<Rightarrow> message list \<Rightarrow> error + message list" where
  "reduceContext cfg messages =
     (case findLastMessageWithToolResults messages of
        Some idx \<Rightarrow>
          if shouldTruncateResults cfg then
            (case truncateToolResults messages (int idx) of
               (True, messages') \<Rightarrow> Inr messages'
             | (False, messages') \<Rightarrow> trimMessages (windowSize cfg) messages')
          else trimMessages (windowSize cfg) messages
      | None \<Rightarrow> trimMessages (windowSize cfg) messages)"

text \<open>\<^verbatim>\<open>applyManagement\<close>: nothing to do within the window.\<close>

definition applyManagement :: "config \<Rightarrow> message list \<Rightarrow> error + message list" where
  "applyManagement cfg messages =
     (if int (length messages) \<le> windowSize cfg then Inr messages
      else reduceContext cfg messages)"

subsection \<open>Predicates on histories\<close>

text \<open>
  The two halves of the pairing invariant, as predicates on a history.  A history starts
  with an unpaired tool result when its first message has a tool-result block (no message
  precedes it).  A tool use dangles when a message with a tool-use block is the last
  message, or is followed by a message with no tool-result block.
\<close>

definition startsWithToolResult :: "message list \<Rightarrow> bool" where
  "startsWithToolResult ms = (case ms of [] \<Rightarrow> False | m # _ \<Rightarrow> hasToolResult m)"

fun danglingToolUse :: "message list \<Rightarrow> bool" where
  "danglingToolUse [] = False"
| "danglingToolUse [m] = hasToolUse m"
| "danglingToolUse (m # n # ms) = ((hasToolUse m \<and> \<not> hasToolResult n) \<or> danglingToolUse (n # ms))"

text \<open>The test of the trimming loop on the message at index \<open>i\<close>: the index is skipped.\<close>

definition invalidTrimPoint :: "message list \<Rightarrow> nat \<Rightarrow> bool" where
  "invalidTrimPoint ms i =
     (hasToolResult (ms ! i) \<or>
      (hasToolUse (ms ! i) \<and> \<not> (Suc i < length ms \<and> hasToolResult (ms ! Suc i))))"

text \<open>
  The pairing of the specification, by correlation id: the message at \<open>i\<close> has a
  tool-use block whose id is not the id of any tool-result block of the message at
  \<open>i + 1\<close> (or no such message exists).  The source never compares ids; this predicate
  follows the specification's words and is only used to compare.
\<close>

fun toolUseIds :: "content_block list \<Rightarrow> string list" where
  "toolUseIds [] = []"
| "toolUseIds (ToolUseBlock u # bs) = useId u # toolUseIds bs"
| "toolUseIds (b # bs) = toolUseIds bs"

fun toolResultIds :: "content_block list \<Rightarrow> string list" where
  "toolResultIds [] = []"
| "toolResultIds (ToolResultBlock r # bs) = toolUseId r # toolResultIds bs"
| "toolResultIds (b # bs) = toolResultIds bs"

definition spec_unpairedToolUse :: "message list \<Rightarrow> nat \<Rightarrow> bool" where
  "spec_unpairedToolUse ms i =
     list_ex (\<lambda>uid. \<not> (Suc i < length ms \<and> uid \<in> set (toolResultIds (content (ms ! Suc i)))))
       (toolUseIds (content (ms ! i)))"

text \<open>What the reducer looks at in a message: whether it has a tool-use block and whether
  it has a tool-result block.\<close>

definition kinds :: "message \<Rightarrow> bool \<times> bool" where
  "kinds m = (hasToolUse m, hasToolResult m)"

section \<open>The agent: entry points\<close>

subsection \<open>Generators\<close>

text \<open>
  The result of one \<^verbatim>\<open>next()\<close> on a generator: \<^verbatim>\<open>{done: false, value}\<close> is a yielded event,
  \<^verbatim>\<open>{done: true, value}\<close> the returned value.  A generator is its \<^verbatim>\<open>next\<close> function on the
  state it runs in: a call either throws or gives an iterator result.
\<close>

datatype ('e, 'r) iterator_result = IterYield 'e | IterReturn 'r

type_synonym ('s, 'e, 'r) generator = "'s \<Rightarrow> (error + ('e, 'r) iterator_result) \<times> 's"

subsection \<open>invoke\<close>

text \<open>
  \<^verbatim>\<open>invoke\<close>: \<^verbatim>\<open>let result = await gen.next(); while (!result.done) result = await gen.next();
  return result.value\<close>, where \<^verbatim>\<open>gen = this.stream(args)\<close>.  A stream that yields for ever
  keeps the loop running: the value is \<open>None\<close>.  A \<^verbatim>\<open>next()\<close> that throws rejects the promise.
\<close>

partial_function (option) invoke ::
  "('s, 'e, 'r) generator \<Rightarrow> 's \<Rightarrow> ((error + 'r) \<times> 's) option" where
  "invoke gen s =
     (case gen s of
        (Inl err, s') \<Rightarrow> Some (Inl err, s')
      | (Inr (IterReturn r), s') \<Rightarrow> Some (Inr r, s')
      | (Inr (IterYield ev), s') \<Rightarrow> invoke gen s')"

text \<open>
  What a stream returns when its generator is exhausted: consumed from state \<open>s\<close>, the
  generator yields the events \<open>evs\<close> in order and then finishes, by returning a value or by
  throwing, in state \<open>s'\<close>.
\<close>

inductive exhausted ::
  "('s, 'e, 'r) generator \<Rightarrow> 's \<Rightarrow> 'e list \<Rightarrow> (error + 'r) \<Rightarrow> 's \<Rightarrow> bool" where
  returns: "gen s = (Inr (IterReturn r), s') \<Longrightarrow> exhausted gen s [] (Inr r) s'"
| throws: "gen s = (Inl err, s') \<Longrightarrow> exhausted gen s [] (Inl err) s'"
| yields: "gen s = (Inr (IterYield ev), s1) \<Longrightarrow> exhausted gen s1 evs out s' \<Longrightarrow>
           exhausted gen s (ev # evs) out s'"

subsection \<open>The invocation lock and \<^verbatim>\<open>_streamFromEntry\<close>\<close>

text \<open>
  The root agent as \<^verbatim>\<open>_streamFromEntry\<close> sees it: the private flag \<^verbatim>\<open>_isInvoking\<close>, written
  only by \<^verbatim>\<open>acquireLock\<close> and by the disposer it returns, and everything else (history,
  state, transfer bookkeeping), which the loop and the hooks work on.
\<close>

record 'a agent_rt =
  isInvoking :: bool
  rest :: 'a

definition concurrentInvocationMessage :: string where
  "concurrentInvocationMessage =
     ''Agent is already processing an invocation. Wait for the current invoke() or stream() call to complete before invoking again.''"

text \<open>\<^verbatim>\<open>acquireLock\<close> throws when the flag is set, and sets it otherwise; the disposer clears
  it.\<close>

definition acquireLock :: "'a agent_rt \<Rightarrow> error + 'a agent_rt" where
  "acquireLock agent =
     (if isInvoking agent then Inl (ConcurrentInvocationError concurrentInvocationMessage)
      else Inr (agent\<lparr>isInvoking := True\<rparr>))"

definition dispose :: "'a agent_rt \<Rightarrow> 'a agent_rt" where
  "dispose agent = agent\<lparr>isInvoking := False\<rparr>"

text \<open>
  What \<^verbatim>\<open>_streamFromEntry\<close> runs: \<^verbatim>\<open>initialize\<close>, the inner generator \<^verbatim>\<open>_stream(args, initialAgent)\<close>
  (its \<^verbatim>\<open>next\<close> on its own state \<open>'g\<close> and the agent), and what is done with each yielded
  event (\<^verbatim>\<open>hooks.invokeCallbacks\<close> for a hook event, the printer).  Each may throw.  The
  final result is itself yielded as an event before it is returned.
\<close>

record ('g, 'e, 'r, 'a) entry_env =
  initialize :: "'a \<Rightarrow> error option \<times> 'a"
  innerNext :: "'g \<Rightarrow> 'a \<Rightarrow> (error + ('e, 'r) iterator_result) \<times> 'g \<times> 'a"
  processEvent :: "'e \<Rightarrow> 'a \<Rightarrow> error option \<times> 'a"
  resultEvent :: "'r \<Rightarrow> 'e"

text \<open>
  Where one call of \<^verbatim>\<open>_streamFromEntry\<close> stands: created and not started (the body of a
  generator runs at the first \<^verbatim>\<open>next()\<close>), suspended at \<^verbatim>\<open>yield event\<close> in the loop,
  suspended at \<^verbatim>\<open>yield result.value\<close>, or completed.
\<close>

datatype ('g, 'r) entry_pc =
    NotStarted 'g
  | Suspended 'g
  | YieldedResult 'r
  | Completed

text \<open>
  \<^verbatim>\<open>result = await streamGenerator.next()\<close> and the loop body up to the next \<^verbatim>\<open>yield\<close>.
  The lock is held; every exit of the body (a throw of the inner generator, a throw of a
  hook callback) disposes it.
\<close>

definition advance ::
  "('g, 'e, 'r, 'a) entry_env \<Rightarrow> 'g \<Rightarrow> 'a agent_rt \<Rightarrow>
     (error + ('e, 'r option) iterator_result) \<times> ('g, 'r) entry_pc \<times> 'a agent_rt" where
  "advance env g agent =
     (case innerNext env g (rest agent) of
        (Inl err, g', h) \<Rightarrow> (Inl err, Completed, dispose (agent\<lparr>rest := h\<rparr>))
      | (Inr (IterYield ev), g', h) \<Rightarrow>
          (case processEvent env ev h of
             (Some err, h') \<Rightarrow> (Inl err, Completed, dispose (agent\<lparr>rest := h'\<rparr>))
           | (None, h') \<Rightarrow> (Inr (IterYield ev), Suspended g', agent\<lparr>rest := h'\<rparr>))
      | (Inr (IterReturn r), g', h) \<Rightarrow>
          (Inr (IterYield (resultEvent env r)), YieldedResult r, agent\<lparr>rest := h\<rparr>))"

text \<open>The body from \<^verbatim>\<open>await this.initialize()\<close> on, entered with the lock taken.\<close>

definition runEntry ::
  "('g, 'e, 'r, 'a) entry_env \<Rightarrow> 'g \<Rightarrow> 'a agent_rt \<Rightarrow>
     (error + ('e, 'r option) iterator_result) \<times> ('g, 'r) entry_pc \<times> 'a agent_rt" where
  "runEntry env g agent =
     (case initialize env (rest agent) of
        (Some err, h) \<Rightarrow> (Inl err, Completed, dispose (agent\<lparr>rest := h\<rparr>))
      | (None, h) \<Rightarrow> advance env g (agent\<lparr>rest := h\<rparr>))"

text \<open>
  One \<^verbatim>\<open>next()\<close> on a call of \<^verbatim>\<open>_streamFromEntry\<close>.  \<^verbatim>\<open>using _lock = this.acquireLock()\<close>: a
  throw of \<^verbatim>\<open>acquireLock\<close> ends the call before anything is registered for disposal.  A
  \<^verbatim>\<open>next()\<close> on a completed generator gives \<^verbatim>\<open>{done: true, value: undefined}\<close>.
\<close>

definition streamFromEntry ::
  "('g, 'e, 'r, 'a) entry_env \<Rightarrow> ('g, 'r) entry_pc \<Rightarrow> 'a agent_rt \<Rightarrow>
     (error + ('e, 'r option) iterator_result) \<times> ('g, 'r) entry_pc \<times> 'a agent_rt" where
  "streamFromEntry env pc agent =
     (case pc of
        NotStarted g \<Rightarrow>
          (case acquireLock agent of
             Inl err \<Rightarrow> (Inl err, Completed, agent)
           | Inr agent' \<Rightarrow> runEntry env g agent')
      | Suspended g \<Rightarrow> advance env g agent
      | YieldedResult r \<Rightarrow> (Inr (IterReturn (Some r)), Completed, dispose agent)
      | Completed \<Rightarrow> (Inr (IterReturn None), Completed, agent))"

text \<open>
  \<^verbatim>\<open>stream(args)\<close> delegates (\<^verbatim>\<open>yield*\<close>) to \<^verbatim>\<open>_streamFromEntry(args, this)\<close> of the root
  agent: its generator is that call, on the pair of the call's position and the root agent.
\<close>

definition stream ::
  "('g, 'e, 'r, 'a) entry_env \<Rightarrow> (('g, 'r) entry_pc \<times> 'a agent_rt, 'e, 'r option) generator" where
  "stream env s =
     (case streamFromEntry env (fst s) (snd s) of (res, pc', agent') \<Rightarrow> (res, (pc', agent')))"

text \<open>
  An early \<^verbatim>\<open>return()\<close> by the consumer: a generator that has not started completes without
  running its body; a suspended one runs its disposals.
\<close>

definition streamFromEntryReturn ::
  "('g, 'r) entry_pc \<Rightarrow> 'a agent_rt \<Rightarrow> ('g, 'r) entry_pc \<times> 'a agent_rt" where
  "streamFromEntryReturn pc agent =
     (case pc of
        NotStarted g \<Rightarrow> (Completed, agent)
      | Suspended g \<Rightarrow> (Completed, dispose agent)
      | YieldedResult r \<Rightarrow> (Completed, dispose agent)
      | Completed \<Rightarrow> (Completed, agent))"

text \<open>
  Several calls on the same root agent, each a generator of its own, advanced in any order
  by their consumers: call \<open>i\<close> makes one \<^verbatim>\<open>next()\<close>.  (A call on a sub-agent is delegated to
  the root's \<^verbatim>\<open>_streamFromEntry\<close>, so it is a call on the root too.)
\<close>

definition callNext ::
  "('g, 'e, 'r, 'a) entry_env \<Rightarrow> nat \<Rightarrow> ('g, 'r) entry_pc list \<times> 'a agent_rt \<Rightarrow>
     (error + ('e, 'r option) iterator_result) \<times> ('g, 'r) entry_pc list \<times> 'a agent_rt" where
  "callNext env i sys =
     (case streamFromEntry env (fst sys ! i) (snd sys) of
        (res, pc', agent') \<Rightarrow> (res, (fst sys)[i := pc'], agent'))"

text \<open>A call is in flight from its first \<^verbatim>\<open>next()\<close> until it completes.\<close>

fun inFlight :: "('g, 'r) entry_pc \<Rightarrow> bool" where
  "inFlight (Suspended g) = True"
| "inFlight (YieldedResult r) = True"
| "inFlight pc = False"

text \<open>The flag is set exactly while one call is in flight, and at most one is.\<close>

definition lockInvariant :: "('g, 'r) entry_pc list \<times> 'a agent_rt \<Rightarrow> bool" where
  "lockInvariant sys =
     (length (filter inFlight (fst sys)) = (if isInvoking (snd sys) then 1 else 0))"

text \<open>An early \<^verbatim>\<open>return()\<close> by the consumer of call \<open>i\<close>.\<close>

definition callReturn ::
  "nat \<Rightarrow> ('g, 'r) entry_pc list \<times> 'a agent_rt \<Rightarrow> ('g, 'r) entry_pc list \<times> 'a agent_rt" where
  "callReturn i sys =
     (case streamFromEntryReturn (fst sys ! i) (snd sys) of
        (pc', agent') \<Rightarrow> ((fst sys)[i := pc'], agent'))"

text \<open>
  A run of the calls: their consumers make the calls' \<^verbatim>\<open>next()\<close> and \<^verbatim>\<open>return()\<close> in any
  order, one at a time (each is awaited to its next \<^verbatim>\<open>yield\<close> or to its end).
\<close>

datatype call_step = Next nat | Return nat

fun stepIndex :: "call_step \<Rightarrow> nat" where
  "stepIndex (Next i) = i"
| "stepIndex (Return i) = i"

fun runCalls ::
  "('g, 'e, 'r, 'a) entry_env \<Rightarrow> call_step list \<Rightarrow> ('g, 'r) entry_pc list \<times> 'a agent_rt \<Rightarrow>
     ('g, 'r) entry_pc list \<times> 'a agent_rt" where
  "runCalls env [] sys = sys"
| "runCalls env (Next i # steps) sys = runCalls env steps (snd (callNext env i sys))"
| "runCalls env (Return i # steps) sys = runCalls env steps (callReturn i sys)"

section \<open>The agent tree\<close>

text \<open>
  Agents are objects that point at each other (\<^verbatim>\<open>parentAgent\<close>, \<^verbatim>\<open>subAgents\<close>), and the
  constructor of one agent writes into others.  The heap of agents is a list; a reference
  is an index into it.  Of an agent the tree needs its name, its links, its two transfer
  switches and which agent's history array its \<^verbatim>\<open>messages\<close> field points at.
\<close>

type_synonym agent_ref = nat

record agent_obj =
  agentName :: "string option"
  subAgents :: "agent_ref list"
  parentAgent :: "agent_ref option"
  disallowTransferToParent :: bool
  disallowTransferToPeers :: bool
  messagesOf :: agent_ref

type_synonym store = "agent_obj list"

text \<open>The part of \<^verbatim>\<open>AgentConfig\<close> that the tree reads.\<close>

record agent_config =
  cfgName :: "string option"
  cfgSubAgents :: "agent_ref list"
  cfgParentAgent :: "agent_ref option"
  cfgDisallowTransferToParent :: bool
  cfgDisallowTransferToPeers :: bool

definition quote :: string where
  "quote = [CHR 0x27]"

definition nestedSubAgentsError :: error where
  "nestedSubAgentsError =
     Error ''Nested sub-agents are not supported. Child agents cannot define subAgents.''"

definition nameRequiredError :: error where
  "nameRequiredError = Error ''Agent name is required when using subAgents or parentAgent''"

text \<open>\<^verbatim>\<open>name ?? '<unnamed>'\<close>\<close>

definition nameOrUnnamed :: "string option \<Rightarrow> string" where
  "nameOrUnnamed n = (case n of None \<Rightarrow> ''<unnamed>'' | Some s \<Rightarrow> s)"

text \<open>
  The loop over \<^verbatim>\<open>this.subAgents\<close> in \<^verbatim>\<open>_wireAgentTree\<close>.  A throw leaves the children
  already visited wired.
\<close>

fun wireChildren :: "agent_ref \<Rightarrow> agent_ref list \<Rightarrow> store \<Rightarrow> error option \<times> store" where
  "wireChildren this [] st = (None, st)"
| "wireChildren this (child # cs) st =
     (if subAgents (st ! child) \<noteq> [] then (Some nestedSubAgentsError, st)
      else if parentAgent (st ! child) \<noteq> None \<and> parentAgent (st ! child) \<noteq> Some this
      then (Some (Error (''Agent '' @ quote @ nameOrUnnamed (agentName (st ! child)) @ quote @
                         '' already has parent '' @ quote @
                         nameOrUnnamed (agentName (st ! the (parentAgent (st ! child)))) @ quote)),
            st)
      else wireChildren this cs
             (st[child := (st ! child)\<lparr>parentAgent := Some this,
                                        messagesOf := messagesOf (st ! this)\<rparr>]))"

text \<open>\<^verbatim>\<open>_validateSiblingNames\<close>: the names seen so far; a child without a name is passed
  over.\<close>

fun validateSiblingNames ::
  "string option \<Rightarrow> string list \<Rightarrow> agent_ref list \<Rightarrow> store \<Rightarrow> error option" where
  "validateSiblingNames parentName seen [] st = None"
| "validateSiblingNames parentName seen (child # cs) st =
     (case agentName (st ! child) of
        None \<Rightarrow> validateSiblingNames parentName seen cs st
      | Some n \<Rightarrow>
          if n \<in> set seen
          then Some (Error (''Duplicate sub-agent name '' @ quote @ n @ quote @
                            '' under parent '' @ quote @ nameOrUnnamed parentName @ quote))
          else validateSiblingNames parentName (n # seen) cs st)"

text \<open>\<^verbatim>\<open>_assertNamePresent\<close>: \<^verbatim>\<open>!agent.name\<close> holds for a missing name and for the empty
  string.\<close>

definition namePresent :: "store \<Rightarrow> agent_ref \<Rightarrow> bool" where
  "namePresent st a = (case agentName (st ! a) of None \<Rightarrow> False | Some n \<Rightarrow> n \<noteq> [])"

text \<open>
  \<^verbatim>\<open>_wireAgentTree\<close>, run by the constructor on the new agent \<open>this\<close>.  The first check
  refuses an agent that has both a parent and children; the loop refuses a child that has
  children.  The agent given as \<^verbatim>\<open>parentAgent\<close> is not asked whether it has a parent itself.
\<close>

definition wireAgentTree :: "agent_ref \<Rightarrow> store \<Rightarrow> error option \<times> store" where
  "wireAgentTree this st =
     (if parentAgent (st ! this) \<noteq> None \<and> subAgents (st ! this) \<noteq> []
      then (Some nestedSubAgentsError, st)
      else
        let st1 = (case parentAgent (st ! this) of
                     None \<Rightarrow> st
                   | Some p \<Rightarrow>
                       if this \<in> set (subAgents (st ! p)) then st
                       else st[p := (st ! p)\<lparr>subAgents := subAgents (st ! p) @ [this]\<rparr>])
        in (case wireChildren this (subAgents (st1 ! this)) st1 of
              (Some err, st2) \<Rightarrow> (Some err, st2)
            | (None, st2) \<Rightarrow>
                (case validateSiblingNames (agentName (st2 ! this)) [] (subAgents (st2 ! this)) st2 of
                   Some err \<Rightarrow> (Some err, st2)
                 | None \<Rightarrow>
                     if (subAgents (st2 ! this) \<noteq> [] \<or> parentAgent (st2 ! this) \<noteq> None) \<and>
                        \<not> (namePresent st2 this \<and> list_all (namePresent st2) (subAgents (st2 ! this)))
                     then (Some nameRequiredError, st2)
                     else (None, st2))))"

text \<open>
  \<^verbatim>\<open>new Agent(config)\<close>: the object is allocated with the configured links, then wired.  A
  throwing constructor gives the caller no reference, but what it wrote before the throw
  stays written.
\<close>

definition newAgent :: "agent_config \<Rightarrow> store \<Rightarrow> (error + agent_ref) \<times> store" where
  "newAgent cfg st =
     (let this = length st;
          obj = \<lparr>agentName = cfgName cfg, subAgents = cfgSubAgents cfg,
                 parentAgent = cfgParentAgent cfg,
                 disallowTransferToParent = cfgDisallowTransferToParent cfg,
                 disallowTransferToPeers = cfgDisallowTransferToPeers cfg,
                 messagesOf = this\<rparr>
      in (case wireAgentTree this (st @ [obj]) of
            (Some err, st') \<Rightarrow> (Inl err, st')
          | (None, st') \<Rightarrow> (Inr this, st')))"

text \<open>
  \<^verbatim>\<open>getRootAgent\<close> follows the parent links; the number of links followed is the depth of
  the agent below its root.  The fuel bounds the walk: a chain of parents in a heap of
  \<open>n\<close> agents that does not end within \<open>n\<close> links is a cycle (\<open>None\<close>).
\<close>

fun rootFrom :: "nat \<Rightarrow> store \<Rightarrow> agent_ref \<Rightarrow> (agent_ref \<times> nat) option" where
  "rootFrom 0 st a = None"
| "rootFrom (Suc n) st a =
     (case parentAgent (st ! a) of
        None \<Rightarrow> Some (a, 0)
      | Some p \<Rightarrow> (case rootFrom n st p of None \<Rightarrow> None | Some (r, d) \<Rightarrow> Some (r, Suc d)))"

definition getRootAgent :: "store \<Rightarrow> agent_ref \<Rightarrow> agent_ref option" where
  "getRootAgent st a = map_option fst (rootFrom (length st) st a)"

definition depthBelowRoot :: "store \<Rightarrow> agent_ref \<Rightarrow> nat option" where
  "depthBelowRoot st a = map_option snd (rootFrom (length st) st a)"

text \<open>
  \<^verbatim>\<open>findAgent\<close> and \<^verbatim>\<open>findSubAgent\<close>: the agent itself, then its children in order, each
  with its own descendants.  The fuel bounds the depth of the search.
\<close>

fun findAgentFrom :: "nat \<Rightarrow> store \<Rightarrow> agent_ref \<Rightarrow> string \<Rightarrow> agent_ref option"
  and findInChildren :: "nat \<Rightarrow> store \<Rightarrow> agent_ref list \<Rightarrow> string \<Rightarrow> agent_ref option" where
  "findAgentFrom 0 st a n = None"
| "findAgentFrom (Suc k) st a n =
     (if agentName (st ! a) = Some n then Some a else findInChildren k st (subAgents (st ! a)) n)"
| "findInChildren k st [] n = None"
| "findInChildren k st (c # cs) n =
     (case findAgentFrom k st c n of Some found \<Rightarrow> Some found | None \<Rightarrow> findInChildren k st cs n)"

definition findAgent :: "store \<Rightarrow> agent_ref \<Rightarrow> string \<Rightarrow> agent_ref option" where
  "findAgent st a n = findAgentFrom (Suc (length st)) st a n"

section \<open>The agent loop\<close>

text \<open>
  The loop is a chain of generators consumed by \<^verbatim>\<open>_streamFromEntry\<close>, which dispatches the
  callbacks of every hook event a generator yields before it resumes the generator.  The
  functions below give each generator run to its end under that consumer: a \<^verbatim>\<open>yield\<close> of
  a hook event is the dispatch of its callbacks.  The callbacks modelled are those the
  loop reads something back from or that the conversation manager registers (after a
  model call, after a tool call, after the invocation).
\<close>

subsection \<open>State and outcomes\<close>

text \<open>The mutable part of the root agent: the shared history and the hand-off
  bookkeeping (\<^verbatim>\<open>_activeAgentName\<close>, \<^verbatim>\<open>_pendingTransferTarget\<close>, \<^verbatim>\<open>_consecutiveTransfers\<close>).\<close>

record agent_state =
  messages :: "message list"
  activeAgentName :: "string option"
  pendingTransferTarget :: "string option"
  consecutiveTransfers :: nat

text \<open>
  How a generator ends.  \<open>Returned\<close>: it returned a value.  \<open>Threw\<close>: an exception was
  thrown inside the generators; an enclosing \<^verbatim>\<open>try\<close> of the loop catches it and \<^verbatim>\<open>finally\<close>
  blocks run.  \<open>Aborted\<close>: a hook callback threw while the consumer dispatched a yielded
  event; the consumer leaves, the suspended generators are never resumed, so no \<^verbatim>\<open>catch\<close>
  and no \<^verbatim>\<open>finally\<close> of theirs runs.
\<close>

datatype 'a outcome = Returned 'a | Threw error | Aborted error

definition MAX_CONSECUTIVE_TRANSFERS :: nat where
  "MAX_CONSECUTIVE_TRANSFERS = 8"

fun errorMessage :: "error \<Rightarrow> string" where
  "errorMessage (ContextWindowOverflowError m) = m"
| "errorMessage (ConcurrentInvocationError m) = m"
| "errorMessage (Error m) = m"

subsection \<open>Hooks\<close>

text \<open>
  Modelled from the spec: \<^verbatim>\<open>hooks/events.ts\<close> and \<^verbatim>\<open>hooks/registry.ts\<close> are not among the
  sources.  An event is a mutable object: it carries the fields the loop gives it, and the
  flags that callbacks set on it, kept here by property name as JavaScript keeps them
  (\<^verbatim>\<open>event.retryModelCall = true\<close> writes the property \<open>retryModelCall\<close>, \<^verbatim>\<open>event.retry\<close> reads
  the property \<open>retry\<close>).  \<^verbatim>\<open>invokeCallbacks\<close> runs the callbacks registered for the event in
  registration order, each seeing what the earlier ones did; a callback that throws ends
  the dispatch.
\<close>

record after_model_call_event =
  stopData :: "(message \<times> string) option"
  modelError :: "error option"
  modelFlags :: "string \<rightharpoonup> bool"

record after_tool_call_event =
  toolUse :: tool_use
  toolFound :: bool
  toolResult :: tool_result
  toolError :: "error option"
  toolFlags :: "string \<rightharpoonup> bool"

type_synonym 'ev callback = "'ev \<Rightarrow> agent_state \<Rightarrow> (error + 'ev) \<times> agent_state"

record hook_registry =
  afterModelCall :: "after_model_call_event callback list"
  afterToolCall :: "after_tool_call_event callback list"
  afterInvocation :: "unit callback list"

definition emptyRegistry :: hook_registry where
  "emptyRegistry = \<lparr>afterModelCall = [], afterToolCall = [], afterInvocation = []\<rparr>"

fun invokeCallbacks :: "'ev callback list \<Rightarrow> 'ev \<Rightarrow> agent_state \<Rightarrow> (error + 'ev) \<times> agent_state" where
  "invokeCallbacks [] ev s = (Inr ev, s)"
| "invokeCallbacks (cb # cbs) ev s =
     (case cb ev s of
        (Inl err, s') \<Rightarrow> (Inl err, s')
      | (Inr ev', s') \<Rightarrow> invokeCallbacks cbs ev' s')"

text \<open>\<^verbatim>\<open>if (event.flag)\<close>: an unset property is \<^verbatim>\<open>undefined\<close>, which is falsy.\<close>

definition truthy :: "bool option \<Rightarrow> bool" where
  "truthy v = (v = Some True)"

text \<open>
  \<^verbatim>\<open>SlidingWindowConversationManager.registerCallbacks\<close>.  After the invocation:
  \<^verbatim>\<open>applyManagement\<close> on the agent's history.  After a model call: on a context-window
  overflow error, \<^verbatim>\<open>reduceContext\<close> and then \<^verbatim>\<open>event.retryModelCall = true\<close>.
\<close>

definition slidingWindowAfterInvocation :: "config \<Rightarrow> unit callback" where
  "slidingWindowAfterInvocation cfg ev s =
     (case applyManagement cfg (messages s) of
        Inl err \<Rightarrow> (Inl err, s)
      | Inr ms \<Rightarrow> (Inr ev, s\<lparr>messages := ms\<rparr>))"

definition slidingWindowAfterModelCall :: "config \<Rightarrow> after_model_call_event callback" where
  "slidingWindowAfterModelCall cfg ev s =
     (case modelError ev of
        Some (ContextWindowOverflowError m) \<Rightarrow>
          (case reduceContext cfg (messages s) of
             Inl err \<Rightarrow> (Inl err, s)
           | Inr ms \<Rightarrow>
               (Inr (ev\<lparr>modelFlags := (modelFlags ev)(''retryModelCall'' \<mapsto> True)\<rparr>),
                s\<lparr>messages := ms\<rparr>))
      | _ \<Rightarrow> (Inr ev, s))"

definition registerCallbacks :: "config \<Rightarrow> hook_registry \<Rightarrow> hook_registry" where
  "registerCallbacks cfg registry =
     registry\<lparr>afterInvocation := afterInvocation registry @ [slidingWindowAfterInvocation cfg],
              afterModelCall := afterModelCall registry @ [slidingWindowAfterModelCall cfg]\<rparr>"

subsection \<open>Tools\<close>

text \<open>
  A tool is its name and its \<^verbatim>\<open>stream\<close>, run to its end: it returns a result block or
  nothing, or throws, and may write to the agent.
\<close>

record tool_context =
  ctxToolUse :: tool_use
  ctxAgent :: agent_ref

record tool =
  toolName :: string
  toolStream :: "tool_context \<Rightarrow> agent_state \<Rightarrow> (error + tool_result option) \<times> agent_state"

text \<open>\<^verbatim>\<open>queueTransfer\<close> of \<^verbatim>\<open>_buildRuntimeForActiveAgent\<close>.\<close>

definition queueTransfer :: "string \<Rightarrow> agent_state \<Rightarrow> error option \<times> agent_state" where
  "queueTransfer targetAgentName s =
     (if consecutiveTransfers s \<ge> MAX_CONSECUTIVE_TRANSFERS
      then (Some (Error ''Transfer guard triggered after 8 consecutive transfers in one invocation''), s)
      else (None, s\<lparr>pendingTransferTarget := Some targetAgentName\<rparr>))"

text \<open>The \<^verbatim>\<open>agentName\<close> of the tool input, when the input is an object with that string
  field (the schema of the transfer tool).\<close>

fun agentNameOf :: "json_value \<Rightarrow> string option" where
  "agentNameOf (JObj kvs) = (case map_of kvs ''agentName'' of Some (JStr n) \<Rightarrow> Some n | _ \<Rightarrow> None)"
| "agentNameOf j = None"

text \<open>
  \<^verbatim>\<open>createTransferToAgentTool\<close>.  Modelled from the spec: the wrapper \<^verbatim>\<open>tool(...)\<close> of
  \<^verbatim>\<open>tools/zod-tool.ts\<close> is not among the sources; an input that does not fit the schema and a
  callback that throws are both a throw of the tool's stream here (either way the loop gets
  an error result), and the object the callback returns becomes the JSON content of a
  success result.
\<close>

definition transferToAgentTool :: "string list \<Rightarrow> tool" where
  "transferToAgentTool allowedTargets =
     \<lparr>toolName = ''transfer_to_agent'',
      toolStream = (\<lambda>ctx s.
        case agentNameOf (input (ctxToolUse ctx)) of
          None \<Rightarrow> (Inl (Error ''Invalid tool input''), s)
        | Some n \<Rightarrow>
            if n \<notin> set allowedTargets
            then (Inl (Error (''Agent '' @ quote @ n @ quote @ '' is not a valid transfer target'')), s)
            else (case queueTransfer n s of
                    (Some err, s') \<Rightarrow> (Inl err, s')
                  | (None, s') \<Rightarrow>
                      (Inr (Some \<lparr>toolUseId = useId (ctxToolUse ctx), status = StatusSuccess,
                                  resultContent =
                                    [JsonContent (JObj [(''success'', JBool True),
                                                        (''action'', JStr ''transfer_to_agent''),
                                                        (''targetAgentName'', JStr n)])],
                                  resultError = None\<rparr>), s')))\<rparr>"

text \<open>\<^verbatim>\<open>_getTransferTargets\<close>: children, then the parent and the peers unless switched off;
  agents without a name and repeated names are dropped.\<close>

fun dedupeTargets :: "store \<Rightarrow> string list \<Rightarrow> agent_ref list \<Rightarrow> agent_ref list" where
  "dedupeTargets st seenNames [] = []"
| "dedupeTargets st seenNames (t # ts) =
     (case agentName (st ! t) of
        None \<Rightarrow> dedupeTargets st seenNames ts
      | Some n \<Rightarrow>
          if n = [] \<or> n \<in> set seenNames then dedupeTargets st seenNames ts
          else t # dedupeTargets st (n # seenNames) ts)"

definition getTransferTargets :: "store \<Rightarrow> agent_ref \<Rightarrow> agent_ref list" where
  "getTransferTargets st a =
     dedupeTargets st []
       (subAgents (st ! a) @
        (case parentAgent (st ! a) of
           None \<Rightarrow> []
         | Some p \<Rightarrow>
             (if disallowTransferToParent (st ! a) then [] else [p]) @
             (if disallowTransferToPeers (st ! a) then []
              else filter (\<lambda>peer. peer \<noteq> a) (subAgents (st ! p)))))"

text \<open>
  What the loop runs in: the agent tree and its root (\<^verbatim>\<open>this\<close>), each agent's own tools, each
  agent's model provider (\<^verbatim>\<open>streamAggregated\<close> on a history, run to its end: the message and
  the stop reason, or a throw), and the root's hook registry.
\<close>

record loop_env =
  agents :: store
  rootRef :: agent_ref
  agentTools :: "agent_ref \<Rightarrow> tool list"
  agentModel :: "agent_ref \<Rightarrow> message list \<Rightarrow> error + (message \<times> string)"
  hooks :: hook_registry

text \<open>\<^verbatim>\<open>_buildRuntimeForActiveAgent\<close>: the agent's tools, with the transfer tool added when
  there is a target.\<close>

definition buildRuntimeForActiveAgent :: "loop_env \<Rightarrow> agent_ref \<Rightarrow> tool list" where
  "buildRuntimeForActiveAgent env activeAgent =
     (let transferTargets = getTransferTargets (agents env) activeAgent in
      agentTools env activeAgent @
      (if transferTargets \<noteq> []
       then [transferToAgentTool (map (\<lambda>t. nameOrUnnamed (agentName (agents env ! t))) transferTargets)]
       else []))"

subsection \<open>Model invocation\<close>

text \<open>The argument of \<^verbatim>\<open>invoke\<close> and \<^verbatim>\<open>stream\<close>: a text, content blocks, or messages.\<close>

datatype invoke_args =
    ArgText string
  | ArgBlocks "content_block list"
  | ArgMessages "message list"

text \<open>\<^verbatim>\<open>_normalizeInput\<close>: nothing for \<^verbatim>\<open>undefined\<close> and for an empty array.\<close>

fun normalizeInput :: "invoke_args option \<Rightarrow> message list" where
  "normalizeInput None = []"
| "normalizeInput (Some (ArgText t)) = [\<lparr>role = User, content = [TextBlock t], author = None\<rparr>]"
| "normalizeInput (Some (ArgBlocks bs)) =
     (if bs = [] then [] else [\<lparr>role = User, content = bs, author = None\<rparr>])"
| "normalizeInput (Some (ArgMessages ms)) = ms"

text \<open>\<^verbatim>\<open>_appendMessage\<close>: the author is stamped on a message that has none.\<close>

definition appendMessage :: "message \<Rightarrow> string option \<Rightarrow> agent_state \<Rightarrow> agent_state" where
  "appendMessage m auth s =
     s\<lparr>messages := messages s @
          [if auth \<noteq> None \<and> author m = None
           then \<lparr>role = role m, content = content m, author = auth\<rparr> else m]\<rparr>"

text \<open>
  \<^verbatim>\<open>invokeModel\<close>.  The input messages are appended, the model is called on the history,
  and the after-model-call event is dispatched with the result or with the error.  The loop
  then reads the property \<open>retry\<close> of the event: when it is set, \<^verbatim>\<open>invokeModel\<close> is called
  again with the same \<^verbatim>\<open>args\<close>; otherwise the result is returned, or the error thrown
  again.  \<open>catchModelError\<close> is the \<^verbatim>\<open>catch\<close> block; the retry of the success path sits
  inside the \<^verbatim>\<open>try\<close>, so a throw of the retried call lands in it.  The fuel bounds the
  number of model calls: \<open>None\<close> when it runs out.
\<close>

fun invokeModel ::
    "nat \<Rightarrow> loop_env \<Rightarrow> agent_ref \<Rightarrow> invoke_args option \<Rightarrow> agent_state \<Rightarrow>
       ((message \<times> string) outcome \<times> agent_state) option"
  and catchModelError ::
    "nat \<Rightarrow> loop_env \<Rightarrow> agent_ref \<Rightarrow> invoke_args option \<Rightarrow> error \<Rightarrow> agent_state \<Rightarrow>
       ((message \<times> string) outcome \<times> agent_state) option" where
  "invokeModel 0 env activeAgent args s = None"
| "invokeModel (Suc n) env activeAgent args s =
     (case agentModel env activeAgent
             (messages (fold (\<lambda>m. appendMessage m None) (normalizeInput args) s)) of
        Inr stop \<Rightarrow>
          (case invokeCallbacks (afterModelCall (hooks env))
                  \<lparr>stopData = Some stop, modelError = None, modelFlags = Map.empty\<rparr>
                  (fold (\<lambda>m. appendMessage m None) (normalizeInput args) s) of
             (Inl err, s2) \<Rightarrow> Some (Aborted err, s2)
           | (Inr ev, s2) \<Rightarrow>
               if truthy (modelFlags ev ''retry'') then
                 (case invokeModel n env activeAgent args s2 of
                    Some (Threw err, s3) \<Rightarrow> catchModelError n env activeAgent args err s3
                  | other \<Rightarrow> other)
               else Some (Returned stop, s2))
      | Inl err \<Rightarrow>
          catchModelError n env activeAgent args err
            (fold (\<lambda>m. appendMessage m None) (normalizeInput args) s))"
| "catchModelError n env activeAgent args err s =
     (case invokeCallbacks (afterModelCall (hooks env))
             \<lparr>stopData = None, modelError = Some err, modelFlags = Map.empty\<rparr> s of
        (Inl err', s') \<Rightarrow> Some (Aborted err', s')
      | (Inr ev, s') \<Rightarrow>
          if truthy (modelFlags ev ''retry'') then invokeModel n env activeAgent args s'
          else Some (Threw err, s'))"

subsection \<open>Tool execution\<close>

definition errorResult :: "string \<Rightarrow> string \<Rightarrow> error option \<Rightarrow> tool_result" where
  "errorResult uid txt err =
     \<lparr>toolUseId = uid, status = StatusError, resultContent = [TextContent txt],
      resultError = err\<rparr>"

text \<open>
  One pass of the body of \<^verbatim>\<open>executeTool\<close>, between the two tool-call events: the result
  block and the error handed to the after-tool-call event.  The \<^verbatim>\<open>try\<close> encloses the whole
  use of the tool, and its \<^verbatim>\<open>catch\<close> builds a result.
\<close>

definition attemptTool ::
  "tool option \<Rightarrow> tool_use \<Rightarrow> agent_ref \<Rightarrow> agent_state \<Rightarrow>
     (tool_result \<times> error option) \<times> agent_state" where
  "attemptTool t tu activeAgent s =
     (case t of
        None \<Rightarrow>
          ((errorResult (useId tu) (''Tool '' @ quote @ name tu @ quote @ '' not found in registry'')
              None, None), s)
      | Some found \<Rightarrow>
          (case toolStream found \<lparr>ctxToolUse = tu, ctxAgent = activeAgent\<rparr> s of
             (Inr None, s') \<Rightarrow>
               ((errorResult (useId tu)
                   (''Tool '' @ quote @ name tu @ quote @ '' did not return a result'') None, None), s')
           | (Inr (Some r), s') \<Rightarrow> ((r, resultError r), s')
           | (Inl err, s') \<Rightarrow> ((errorResult (useId tu) (errorMessage err) (Some err), Some err), s')))"

text \<open>
  \<^verbatim>\<open>executeTool\<close>: the tool is looked up by name once; each pass of the \<^verbatim>\<open>while (true)\<close>
  runs the tool and dispatches the after-tool-call event; the pass is repeated while a
  callback sets \<open>retry\<close>.  The result returned is the one the pass built, not what a
  callback may have put on the event.  The fuel bounds the number of passes.  (The
  registry, \<^verbatim>\<open>registry/tool-registry.ts\<close>, is not among the sources: it is the list of the
  tools, and \<^verbatim>\<open>find\<close> gives the first tool that satisfies the predicate.)
\<close>

fun executeTool ::
  "nat \<Rightarrow> loop_env \<Rightarrow> tool_use \<Rightarrow> tool list \<Rightarrow> agent_ref \<Rightarrow> agent_state \<Rightarrow>
     (tool_result outcome \<times> agent_state) option" where
  "executeTool 0 env tu toolRegistry activeAgent s = None"
| "executeTool (Suc n) env tu toolRegistry activeAgent s =
     (case attemptTool (find (\<lambda>t. toolName t = name tu) toolRegistry) tu activeAgent s of
        ((res, err), s1) \<Rightarrow>
          (case invokeCallbacks (afterToolCall (hooks env))
                  \<lparr>toolUse = tu,
                   toolFound = (find (\<lambda>t. toolName t = name tu) toolRegistry \<noteq> None),
                   toolResult = res, toolError = err, toolFlags = Map.empty\<rparr> s1 of
             (Inl err', s2) \<Rightarrow> Some (Aborted err', s2)
           | (Inr ev, s2) \<Rightarrow>
               if truthy (toolFlags ev ''retry'')
               then executeTool n env tu toolRegistry activeAgent s2
               else Some (Returned res, s2)))"

text \<open>\<^verbatim>\<open>assistantMessage.content.filter(block => block.type === 'toolUseBlock')\<close>\<close>

fun toolUseBlocks :: "content_block list \<Rightarrow> tool_use list" where
  "toolUseBlocks [] = []"
| "toolUseBlocks (ToolUseBlock u # bs) = u # toolUseBlocks bs"
| "toolUseBlocks (b # bs) = toolUseBlocks bs"

text \<open>The \<^verbatim>\<open>for\<close> loop of \<^verbatim>\<open>executeTools\<close>: one tool after the other, the results in the
  order of the tool uses.\<close>

fun executeEach ::
  "nat \<Rightarrow> loop_env \<Rightarrow> tool_use list \<Rightarrow> tool list \<Rightarrow> agent_ref \<Rightarrow> agent_state \<Rightarrow>
     (tool_result list outcome \<times> agent_state) option" where
  "executeEach n env [] toolRegistry activeAgent s = Some (Returned [], s)"
| "executeEach n env (tu # tus) toolRegistry activeAgent s =
     (case executeTool n env tu toolRegistry activeAgent s of
        None \<Rightarrow> None
      | Some (Threw err, s1) \<Rightarrow> Some (Threw err, s1)
      | Some (Aborted err, s1) \<Rightarrow> Some (Aborted err, s1)
      | Some (Returned r, s1) \<Rightarrow>
          (case executeEach n env tus toolRegistry activeAgent s1 of
             None \<Rightarrow> None
           | Some (Threw err, s2) \<Rightarrow> Some (Threw err, s2)
           | Some (Aborted err, s2) \<Rightarrow> Some (Aborted err, s2)
           | Some (Returned rs, s2) \<Rightarrow> Some (Returned (r # rs), s2)))"

definition executeTools ::
  "nat \<Rightarrow> loop_env \<Rightarrow> message \<Rightarrow> tool list \<Rightarrow> agent_ref \<Rightarrow> agent_state \<Rightarrow>
     (message outcome \<times> agent_state) option" where
  "executeTools n env assistantMessage toolRegistry activeAgent s =
     (if toolUseBlocks (content assistantMessage) = []
      then Some (Threw (Error ''Model indicated toolUse but no tool use blocks found in message''), s)
      else
        (case executeEach n env (toolUseBlocks (content assistantMessage)) toolRegistry activeAgent s of
           None \<Rightarrow> None
         | Some (Threw err, s1) \<Rightarrow> Some (Threw err, s1)
         | Some (Aborted err, s1) \<Rightarrow> Some (Aborted err, s1)
         | Some (Returned rs, s1) \<Rightarrow>
             Some (Returned \<lparr>role = User, content = map ToolResultBlock rs, author = None\<rparr>, s1)))"

subsection \<open>The loop of \<^verbatim>\<open>_stream\<close>\<close>

record agent_result =
  stopReason :: string
  lastMessage :: message

text \<open>\<^verbatim>\<open>if (pendingTarget)\<close>: \<^verbatim>\<open>undefined\<close> and the empty string are falsy.\<close>

definition pendingTarget :: "agent_state \<Rightarrow> string option" where
  "pendingTarget s =
     (case pendingTransferTarget s of None \<Rightarrow> None | Some t \<Rightarrow> if t = [] then None else Some t)"

text \<open>
  The \<^verbatim>\<open>while (true)\<close> of \<^verbatim>\<open>_stream\<close>; the fuel bounds the number of rounds.  A round calls
  the model.  On a stop reason other than \<open>toolUse\<close> the message is appended, the active
  agent remembered and the result returned.  Otherwise the tools run, the two messages are
  appended and the pending transfer is taken: without one the counter is set to 0; with one,
  the target is looked up (a throw when it is missing), and the transfer is made and counted
  unless the counter has reached the maximum, in which case the counter is set to 0.
\<close>

fun streamLoop ::
  "nat \<Rightarrow> loop_env \<Rightarrow> agent_ref \<Rightarrow> invoke_args option \<Rightarrow> agent_state \<Rightarrow>
     (agent_result outcome \<times> agent_state) option" where
  "streamLoop 0 env activeAgent currentArgs s = None"
| "streamLoop (Suc n) env activeAgent currentArgs s =
     (case invokeModel (Suc n) env activeAgent currentArgs s of
        None \<Rightarrow> None
      | Some (Threw err, s1) \<Rightarrow> Some (Threw err, s1)
      | Some (Aborted err, s1) \<Rightarrow> Some (Aborted err, s1)
      | Some (Returned (msg, reason), s1) \<Rightarrow>
          if reason \<noteq> ''toolUse'' then
            Some (Returned \<lparr>stopReason = reason, lastMessage = msg\<rparr>,
                  (appendMessage msg (agentName (agents env ! activeAgent)) s1)
                    \<lparr>activeAgentName := agentName (agents env ! activeAgent)\<rparr>)
          else
            (case executeTools (Suc n) env msg (buildRuntimeForActiveAgent env activeAgent)
                    activeAgent s1 of
               None \<Rightarrow> None
             | Some (Threw err, s2) \<Rightarrow> Some (Threw err, s2)
             | Some (Aborted err, s2) \<Rightarrow> Some (Aborted err, s2)
             | Some (Returned toolResultMessage, s2) \<Rightarrow>
                 (case pendingTarget
                         (appendMessage toolResultMessage (agentName (agents env ! activeAgent))
                            (appendMessage msg (agentName (agents env ! activeAgent)) s2)) of
                    None \<Rightarrow>
                      streamLoop n env activeAgent None
                        ((appendMessage toolResultMessage (agentName (agents env ! activeAgent))
                            (appendMessage msg (agentName (agents env ! activeAgent)) s2))
                           \<lparr>pendingTransferTarget := None, consecutiveTransfers := 0\<rparr>)
                  | Some target \<Rightarrow>
                      (case findAgent (agents env) (rootRef env) target of
                         None \<Rightarrow>
                           Some (Threw (Error (''Agent '' @ quote @ target @ quote @
                                               '' not found in the agent tree'')),
                                 (appendMessage toolResultMessage (agentName (agents env ! activeAgent))
                                    (appendMessage msg (agentName (agents env ! activeAgent)) s2))
                                   \<lparr>pendingTransferTarget := None\<rparr>)
                       | Some nextAgent \<Rightarrow>
                           if consecutiveTransfers s2 \<ge> MAX_CONSECUTIVE_TRANSFERS then
                             streamLoop n env activeAgent None
                               ((appendMessage toolResultMessage (agentName (agents env ! activeAgent))
                                   (appendMessage msg (agentName (agents env ! activeAgent)) s2))
                                  \<lparr>pendingTransferTarget := None, consecutiveTransfers := 0\<rparr>)
                           else
                             streamLoop n env nextAgent None
                               ((appendMessage toolResultMessage (agentName (agents env ! activeAgent))
                                   (appendMessage msg (agentName (agents env ! activeAgent)) s2))
                                  \<lparr>pendingTransferTarget := None,
                                   activeAgentName := agentName (agents env ! nextAgent),
                                   consecutiveTransfers := consecutiveTransfers s2 + 1\<rparr>)))))"

text \<open>\<^verbatim>\<open>_resolveInitialActiveAgent\<close>: a call on a sub-agent starts there; a call on the root
  resumes the remembered agent when it is still found.\<close>

definition resolveInitialActiveAgent :: "loop_env \<Rightarrow> agent_ref \<Rightarrow> agent_state \<Rightarrow> agent_ref" where
  "resolveInitialActiveAgent env initialAgent s =
     (if initialAgent \<noteq> rootRef env then initialAgent
      else (case activeAgentName s of
              None \<Rightarrow> initialAgent
            | Some n \<Rightarrow>
                if n = [] then initialAgent
                else (case findAgent (agents env) (rootRef env) n of
                        None \<Rightarrow> initialAgent
                      | Some remembered \<Rightarrow> remembered)))"

text \<open>
  \<^verbatim>\<open>_stream\<close>, run to its end: the loop, and in the \<^verbatim>\<open>finally\<close> the after-invocation event,
  whether the loop returned or threw.
\<close>

definition streamInternal ::
  "nat \<Rightarrow> loop_env \<Rightarrow> invoke_args \<Rightarrow> agent_ref \<Rightarrow> agent_state \<Rightarrow>
     (agent_result outcome \<times> agent_state) option" where
  "streamInternal n env args initialAgent s =
     (case streamLoop n env (resolveInitialActiveAgent env initialAgent s) (Some args) s of
        None \<Rightarrow> None
      | Some (Aborted err, s1) \<Rightarrow> Some (Aborted err, s1)
      | Some (out, s1) \<Rightarrow>
          (case invokeCallbacks (afterInvocation (hooks env)) () s1 of
             (Inl err, s2) \<Rightarrow> Some (Aborted err, s2)
           | (Inr u, s2) \<Rightarrow> Some (out, s2)))"

subsection \<open>Failed tool uses\<close>

text \<open>
  The three ways a tool use fails, on the registry and the state the pass starts in: no
  tool of that name is registered, the tool's stream throws, or it ends without a result.
\<close>

definition toolFailed :: "tool list \<Rightarrow> tool_use \<Rightarrow> agent_ref \<Rightarrow> agent_state \<Rightarrow> bool" where
  "toolFailed toolRegistry tu activeAgent s =
     (case find (\<lambda>t. toolName t = name tu) toolRegistry of
        None \<Rightarrow> True
      | Some t \<Rightarrow>
          (case fst (toolStream t \<lparr>ctxToolUse = tu, ctxAgent = activeAgent\<rparr> s) of
             Inl err \<Rightarrow> True
           | Inr None \<Rightarrow> True
           | Inr (Some r) \<Rightarrow> False))"

section \<open>Sample histories\<close>

text \<open>The messages the repository's tests build: a text message, an assistant message
  with one tool use, a user message with one tool result.\<close>

definition textMessage :: "role \<Rightarrow> string \<Rightarrow> message" where
  "textMessage r t = \<lparr>role = r, content = [TextBlock t], author = None\<rparr>"

definition toolUseMessage :: "string \<Rightarrow> string \<Rightarrow> message" where
  "toolUseMessage n i =
     \<lparr>role = Assistant, content = [ToolUseBlock \<lparr>name = n, useId = i, input = JObj []\<rparr>],
      author = None\<rparr>"

definition toolResultMessage :: "string \<Rightarrow> tool_result_status \<Rightarrow> string \<Rightarrow> message" where
  "toolResultMessage i st t =
     \<lparr>role = User,
      content = [ToolResultBlock \<lparr>toolUseId = i, status = st, resultContent = [TextContent t],
                  resultError = None\<rparr>],
      author = None\<rparr>"

text \<open>A small stream: an inner generator that yields the event \<open>''event''\<close> as many
  times as its state says, counting them in the agent, and then returns \<open>''result''\<close>;
  no hook throws.\<close>

definition sampleEnv :: "(nat, string, string, nat) entry_env" where
  "sampleEnv =
     \<lparr>initialize = (\<lambda>h. (None, h)),
      innerNext = (\<lambda>g h. if g = 0 then (Inr (IterReturn ''result''), 0, h)
                          else (Inr (IterYield ''event''), g - 1, Suc h)),
      processEvent = (\<lambda>ev h. (None, h)),
      resultEvent = (\<lambda>r. r)\<rparr>"

text \<open>The same agent when \<^verbatim>\<open>initialize()\<close> throws, and when the first step of the loop
  throws.\<close>

definition failingInitEnv :: "(nat, string, string, nat) entry_env" where
  "failingInitEnv = sampleEnv\<lparr>initialize := (\<lambda>h. (Some (Error ''initialization failed''), h))\<rparr>"

definition failingStepEnv :: "(nat, string, string, nat) entry_env" where
  "failingStepEnv = sampleEnv\<lparr>innerNext := (\<lambda>g h. (Inl (Error ''model failed''), g, h))\<rparr>"

text \<open>
  Agent trees built with the constructor: a leaf \<open>math\<close> (reference 0), a root over it
  (reference 1), and then a third agent \<open>geometry\<close> (reference 2) constructed with
  \<^verbatim>\<open>parentAgent: math\<close>.
\<close>

definition leafConfig :: "string \<Rightarrow> agent_config" where
  "leafConfig n = \<lparr>cfgName = Some n, cfgSubAgents = [], cfgParentAgent = None,
                    cfgDisallowTransferToParent = False, cfgDisallowTransferToPeers = False\<rparr>"

definition twoLevels :: store where
  "twoLevels =
     snd (newAgent ((leafConfig ''root'')\<lparr>cfgSubAgents := [0]\<rparr>)
            (snd (newAgent (leafConfig ''math'') [])))"

definition threeLevels :: store where
  "threeLevels = snd (newAgent ((leafConfig ''geometry'')\<lparr>cfgParentAgent := Some 0\<rparr>) twoLevels)"

text \<open>The state of an agent that has not been invoked yet.\<close>

definition initialState :: agent_state where
  "initialState = \<lparr>messages = [], activeAgentName = None, pendingTransferTarget = None,
                    consecutiveTransfers = 0\<rparr>"

text \<open>
  The hand-off of the repository's test: the root's model asks for a transfer to \<open>math\<close>,
  the model of \<open>math\<close> answers.  The agents carry the default conversation manager.
\<close>

definition transferMessage :: "string \<Rightarrow> string \<Rightarrow> message" where
  "transferMessage i target =
     \<lparr>role = Assistant,
      content = [ToolUseBlock \<lparr>name = ''transfer_to_agent'', useId = i,
                                input = JObj [(''agentName'', JStr target)]\<rparr>],
      author = None\<rparr>"

definition handoffModel :: "agent_ref \<Rightarrow> message list \<Rightarrow> error + (message \<times> string)" where
  "handoffModel a ms =
     (if a = 1 then Inr (transferMessage ''t1'' ''math'', ''toolUse'')
      else Inr (textMessage Assistant ''Math specialist answer'', ''endTurn''))"

definition handoffEnv :: loop_env where
  "handoffEnv = \<lparr>agents = twoLevels, rootRef = 1, agentTools = (\<lambda>a. []),
                  agentModel = handoffModel,
                  hooks = registerCallbacks defaultConfig emptyRegistry\<rparr>"

text \<open>
  A model that overflows as long as the history holds a tool result that is not the
  placeholder, and answers otherwise; a single agent with the default conversation manager;
  a history with a large tool result.
\<close>

definition largeResult :: "message \<Rightarrow> bool" where
  "largeResult m =
     (case firstToolResult (content m) of
        None \<Rightarrow> False
      | Some r \<Rightarrow> contentText (resultContent r) \<noteq> toolResultTooLargeMessage)"

definition overflowModel :: "agent_ref \<Rightarrow> message list \<Rightarrow> error + (message \<times> string)" where
  "overflowModel a ms =
     (if list_ex largeResult ms then Inl (ContextWindowOverflowError ''Input is too long'')
      else Inr (textMessage Assistant ''answer'', ''endTurn''))"

definition singleAgent :: store where
  "singleAgent = snd (newAgent \<lparr>cfgName = None, cfgSubAgents = [], cfgParentAgent = None,
                    cfgDisallowTransferToParent = False, cfgDisallowTransferToPeers = False\<rparr> [])"

definition overflowEnv :: loop_env where
  "overflowEnv = \<lparr>agents = singleAgent, rootRef = 0, agentTools = (\<lambda>a. []),
                   agentModel = overflowModel,
                   hooks = registerCallbacks defaultConfig emptyRegistry\<rparr>"

definition largeHistory :: "message list" where
  "largeHistory = [textMessage User ''question'', toolUseMessage ''tool1'' ''id-1'',
                   toolResultMessage ''id-1'' StatusSuccess ''Large tool result content'']"

text \<open>A tool that throws and a tool that ends without a result, for an agent with no
  hooks.\<close>

definition throwingTool :: tool where
  "throwingTool = \<lparr>toolName = ''thrower'',
                    toolStream = (\<lambda>ctx s. (Inl (Error ''boom''), s))\<rparr>"

definition silentTool :: tool where
  "silentTool = \<lparr>toolName = ''silent'', toolStream = (\<lambda>ctx s. (Inr None, s))\<rparr>"

definition toolEnv :: loop_env where
  "toolEnv = \<lparr>agents = [], rootRef = 0, agentTools = (\<lambda>a. [throwingTool, silentTool]),
               agentModel = (\<lambda>a ms. Inl (Error ''no model'')),
               hooks = emptyRegistry\<rparr>"

text \<open>
  A round in which every tool use fails: the model asks for a tool that is not registered,
  for the tool that throws and for the tool that ends without a result, and answers once
  the history holds tool results.  \<open>failingToolsResults\<close> is the tool-result message of
  that round.
\<close>

definition failingToolsMessage :: message where
  "failingToolsMessage =
     \<lparr>role = Assistant,
      content = [ToolUseBlock \<lparr>name = ''missing'', useId = ''id-1'', input = JNull\<rparr>,
                 ToolUseBlock \<lparr>name = ''thrower'', useId = ''id-2'', input = JNull\<rparr>,
                 ToolUseBlock \<lparr>name = ''silent'', useId = ''id-3'', input = JNull\<rparr>],
      author = None\<rparr>"

definition failingToolsModel :: "agent_ref \<Rightarrow> message list \<Rightarrow> error + (message \<times> string)" where
  "failingToolsModel a ms =
     (if list_ex hasToolResult ms then Inr (textMessage Assistant ''done'', ''endTurn'')
      else Inr (failingToolsMessage, ''toolUse''))"

definition failingToolsEnv :: loop_env where
  "failingToolsEnv = \<lparr>agents = singleAgent, rootRef = 0,
                       agentTools = (\<lambda>a. [throwingTool, silentTool]),
                       agentModel = failingToolsModel, hooks = emptyRegistry\<rparr>"

definition failingToolsResults :: message where
  "failingToolsResults =
     \<lparr>role = User,
      content =
        [ToolResultBlock (errorResult ''id-1''
           (''Tool '' @ quote @ ''missing'' @ quote @ '' not found in registry'') None),
         ToolResultBlock (errorResult ''id-2'' ''boom'' (Some (Error ''boom''))),
         ToolResultBlock (errorResult ''id-3''
           (''Tool '' @ quote @ ''silent'' @ quote @ '' did not return a result'') None)],
      author = None\<rparr>"

text \<open>
  A conversation that goes back and forth: whichever agent is active hands a new question
  over to the other one (the root to \<open>math\<close>, \<open>math\<close> to its parent), which answers.
  Every invocation makes one transfer and ends with an answer.  The agents have no hooks.
\<close>

definition otherAgent :: "agent_ref \<Rightarrow> string" where
  "otherAgent a = (if a = 1 then ''math'' else ''root'')"

definition pingPongModel :: "agent_ref \<Rightarrow> message list \<Rightarrow> error + (message \<times> string)" where
  "pingPongModel a ms =
     (if ms \<noteq> [] \<and> hasToolResult (last ms)
      then Inr (textMessage Assistant ''answer'', ''endTurn'')
      else Inr (transferMessage ''t1'' (otherAgent a), ''toolUse''))"

definition pingPongEnv :: loop_env where
  "pingPongEnv = \<lparr>agents = twoLevels, rootRef = 1, agentTools = (\<lambda>a. []),
                   agentModel = pingPongModel, hooks = emptyRegistry\<rparr>"

definition transferResult :: "string \<Rightarrow> string \<Rightarrow> message" where
  "transferResult target auth =
     \<lparr>role = User,
      content = [ToolResultBlock
         \<lparr>toolUseId = ''t1'', status = StatusSuccess,
          resultContent = [JsonContent (JObj [(''success'', JBool True),
             (''action'', JStr ''transfer_to_agent''), (''targetAgentName'', JStr target)])],
          resultError = None\<rparr>],
      author = Some auth\<rparr>"

definition guardResult :: "string \<Rightarrow> message" where
  "guardResult auth =
     \<lparr>role = User,
      content = [ToolResultBlock
         (errorResult ''t1'' ''Transfer guard triggered after 8 consecutive transfers in one invocation''
            (Some (Error ''Transfer guard triggered after 8 consecutive transfers in one invocation'')))],
      author = Some auth\<rparr>"

fun invokeRepeatedly :: "nat \<Rightarrow> loop_env \<Rightarrow> agent_state \<Rightarrow> agent_state option" where
  "invokeRepeatedly 0 env s = Some s"
| "invokeRepeatedly (Suc k) env s =
     (case invokeRepeatedly k env s of
        None \<Rightarrow> None
      | Some s' \<Rightarrow>
          (case streamInternal 2 env (ArgText ''question'') (rootRef env) s' of
             Some (Returned r, s'') \<Rightarrow> Some s''
           | _ \<Rightarrow> None))"

section \<open>Properties of the conversation manager\<close>

lemmas sample_defs = textMessage_def toolUseMessage_def toolResultMessage_def

lemmas eval_defs = reduceContext_def findLastMessageWithToolResults_def truncateToolResults_def
  trimMessages_def initialTrimIndex_def findTrimIndex.simps hasToolResult_def hasToolUse_def
  toolResultTooLargeMessage_def defaultConfig_def Let_def

subsection \<open>The trimming loop\<close>

lemma findTrimIndex_skip:
  "i < length ms \<Longrightarrow> invalidTrimPoint ms i \<Longrightarrow> findTrimIndex ms i = findTrimIndex ms (Suc i)"
  by (subst findTrimIndex.simps) (auto simp: invalidTrimPoint_def)

lemma findTrimIndex_stop:
  "i < length ms \<Longrightarrow> \<not> invalidTrimPoint ms i \<Longrightarrow> findTrimIndex ms i = i"
  by (subst findTrimIndex.simps) (auto simp: invalidTrimPoint_def)

lemma findTrimIndex_beyond: "length ms \<le> i \<Longrightarrow> findTrimIndex ms i = i"
  by (subst findTrimIndex.simps) simp

lemma findTrimIndex_cases:
  "(\<exists>k. c \<le> k \<and> k < length ms \<and> \<not> invalidTrimPoint ms k \<and>
        (\<forall>i. c \<le> i \<and> i < k \<longrightarrow> invalidTrimPoint ms i) \<and> findTrimIndex ms c = k)
   \<or> ((\<forall>i. c \<le> i \<and> i < length ms \<longrightarrow> invalidTrimPoint ms i) \<and>
       findTrimIndex ms c = max c (length ms))"
proof (induction "length ms - c" arbitrary: c)
  case 0
  then have "length ms \<le> c" by simp
  then show ?case by (auto simp: findTrimIndex_beyond max_def)
next
  case (Suc d)
  then have lt: "c < length ms" by simp
  show ?case
  proof (cases "invalidTrimPoint ms c")
    case False
    with lt have "findTrimIndex ms c = c" by (simp add: findTrimIndex_stop)
    with lt False show ?thesis by auto
  next
    case True
    have step: "findTrimIndex ms c = findTrimIndex ms (Suc c)"
      using lt True by (rule findTrimIndex_skip)
    have d: "d = length ms - Suc c" using Suc(2) by simp
    from Suc(1)[OF d] show ?thesis
    proof
      assume "\<exists>k. Suc c \<le> k \<and> k < length ms \<and> \<not> invalidTrimPoint ms k \<and>
        (\<forall>i. Suc c \<le> i \<and> i < k \<longrightarrow> invalidTrimPoint ms i) \<and> findTrimIndex ms (Suc c) = k"
      then obtain k where k: "Suc c \<le> k" "k < length ms" "\<not> invalidTrimPoint ms k"
        "\<forall>i. Suc c \<le> i \<and> i < k \<longrightarrow> invalidTrimPoint ms i" "findTrimIndex ms (Suc c) = k"
        by blast
      have "\<forall>i. c \<le> i \<and> i < k \<longrightarrow> invalidTrimPoint ms i"
      proof (intro allI impI)
        fix i assume "c \<le> i \<and> i < k"
        then show "invalidTrimPoint ms i"
          using True k(4) by (cases "i = c") auto
      qed
      with k step show ?thesis by (intro disjI1 exI[of _ k]) auto
    next
      assume a: "(\<forall>i. Suc c \<le> i \<and> i < length ms \<longrightarrow> invalidTrimPoint ms i) \<and>
         findTrimIndex ms (Suc c) = max (Suc c) (length ms)"
      have "\<forall>i. c \<le> i \<and> i < length ms \<longrightarrow> invalidTrimPoint ms i"
      proof (intro allI impI)
        fix i assume "c \<le> i \<and> i < length ms"
        then show "invalidTrimPoint ms i"
          using True a by (cases "i = c") auto
      qed
      moreover have "findTrimIndex ms c = max c (length ms)"
        using a step lt by (simp add: max_def)
      ultimately show ?thesis by blast
    qed
  qed
qed


lemma initialTrimIndex_pos: "1 \<le> initialTrimIndex ws ms"
  unfolding initialTrimIndex_def by (cases "int (length ms) \<le> ws") simp_all

lemma trimMessages_cases:
  "(\<exists>k. initialTrimIndex ws ms \<le> k \<and> k < length ms \<and> \<not> invalidTrimPoint ms k \<and>
        (\<forall>i. initialTrimIndex ws ms \<le> i \<and> i < k \<longrightarrow> invalidTrimPoint ms i) \<and>
        trimMessages ws ms = Inr (drop k ms))
   \<or> ((\<forall>i. initialTrimIndex ws ms \<le> i \<and> i < length ms \<longrightarrow> invalidTrimPoint ms i) \<and>
       trimMessages ws ms = Inl (ContextWindowOverflowError ''Unable to trim conversation context!''))"
  using findTrimIndex_cases[of "initialTrimIndex ws ms" ms]
  by (auto simp: trimMessages_def Let_def max_def split: if_splits)

lemma trimMessages_Inr:
  assumes "trimMessages ws ms = Inr r"
  shows "\<exists>k. 1 \<le> k \<and> initialTrimIndex ws ms \<le> k \<and> k < length ms \<and> \<not> invalidTrimPoint ms k \<and>
        (\<forall>i. initialTrimIndex ws ms \<le> i \<and> i < k \<longrightarrow> invalidTrimPoint ms i) \<and> r = drop k ms"
proof -
  from trimMessages_cases[of ws ms] assms
  obtain k where k: "initialTrimIndex ws ms \<le> k" "k < length ms" "\<not> invalidTrimPoint ms k"
        "\<forall>i. initialTrimIndex ws ms \<le> i \<and> i < k \<longrightarrow> invalidTrimPoint ms i" "r = drop k ms"
    by auto
  moreover have "1 \<le> k" using k(1) initialTrimIndex_pos[of ws ms] by linarith
  ultimately show ?thesis by blast
qed

subsection \<open>Truncation keeps the kind of every message\<close>

lemma isToolResultBlock_truncate [simp]: "isToolResultBlock (truncateBlock b) = isToolResultBlock b"
  by (cases b) simp_all

lemma isToolUseBlock_truncate [simp]: "isToolUseBlock (truncateBlock b) = isToolUseBlock b"
  by (cases b) simp_all

lemma hasToolResult_truncate:
  "content m' = map truncateBlock (content m) \<Longrightarrow> hasToolResult m' = hasToolResult m"
  by (simp add: hasToolResult_def list_ex_iff)

lemma hasToolUse_truncate:
  "content m' = map truncateBlock (content m) \<Longrightarrow> hasToolUse m' = hasToolUse m"
  by (simp add: hasToolUse_def list_ex_iff)

lemma kinds_truncate:
  "content m' = map truncateBlock (content m) \<Longrightarrow>
     hasToolUse m' = hasToolUse m \<and> hasToolResult m' = hasToolResult m"
  by (simp add: hasToolResult_truncate hasToolUse_truncate)

lemma danglingToolUse_kinds:
  "map kinds xs = map kinds ys \<Longrightarrow> danglingToolUse xs = danglingToolUse ys"
proof (induction xs arbitrary: ys rule: danglingToolUse.induct)
  case 1
  then show ?case by simp
next
  case (2 m)
  then show ?case by (cases ys) (auto simp: kinds_def)
next
  case (3 m n ms)
  from 3(2) obtain m' n' ms' where ys: "ys = m' # n' # ms'"
    by (cases ys; cases "tl ys") auto
  with 3(2) have "map kinds (n # ms) = map kinds (n' # ms')" by simp
  from 3(1)[OF this] 3(2) ys show ?case by (auto simp: kinds_def)
qed

lemma startsWithToolResult_kinds:
  "map kinds xs = map kinds ys \<Longrightarrow> startsWithToolResult xs = startsWithToolResult ys"
  by (cases xs; cases ys) (auto simp: startsWithToolResult_def kinds_def)

lemma truncateToolResults_kinds:
  "truncateToolResults ms i = (b, ms') \<Longrightarrow> map kinds ms' = map kinds ms"
proof -
  assume a: "truncateToolResults ms i = (b, ms')"
  show ?thesis
  proof (cases "i \<ge> int (length ms) \<or> i < 0")
    case True
    with a show ?thesis by (simp add: truncateToolResults_def)
  next
    case False
    then have lt: "nat i < length ms" by linarith
    have k: "kinds \<lparr>role = role (ms ! nat i), content = map truncateBlock (content (ms ! nat i)),
                      author = None\<rparr> = kinds (ms ! nat i)"
      by (simp add: kinds_def hasToolResult_truncate hasToolUse_truncate)
    from a False show ?thesis
      by (auto simp: truncateToolResults_def Let_def map_update k list_update_same_conv lt
               split: option.splits if_splits)
  qed
qed

lemma truncateToolResults_length:
  "truncateToolResults ms i = (b, ms') \<Longrightarrow> length ms' = length ms"
  by (drule truncateToolResults_kinds) (metis length_map)

lemma truncateToolResults_False:
  "truncateToolResults ms i = (False, ms') \<Longrightarrow> ms' = ms"
  by (auto simp: truncateToolResults_def Let_def split: option.splits if_splits)

lemma danglingToolUse_drop: "danglingToolUse (drop k ms) \<Longrightarrow> danglingToolUse ms"
proof (induction ms arbitrary: k rule: danglingToolUse.induct)
  case 1
  then show ?case by simp
next
  case (2 m)
  then show ?case by (cases k) auto
next
  case (3 m n ms)
  show ?case
  proof (cases k)
    case 0
    with 3(2) show ?thesis by simp
  next
    case (Suc k')
    with 3(2) have "danglingToolUse (drop k' (n # ms))" by simp
    from 3(1)[OF this] show ?thesis by simp
  qed
qed


lemma truncateToolResults_True_range:
  "truncateToolResults ms i = (True, ms') \<Longrightarrow> 0 \<le> i \<and> i < int (length ms)"
  by (auto simp: truncateToolResults_def split: if_splits)

lemma reduceContext_Inr_cases:
  assumes "reduceContext cfg ms = Inr r"
  shows "(\<exists>idx. truncateToolResults ms (int idx) = (True, r)) \<or>
         trimMessages (windowSize cfg) ms = Inr r"
proof (cases "findLastMessageWithToolResults ms")
  case None
  with assms show ?thesis by (simp add: reduceContext_def)
next
  case (Some idx)
  show ?thesis
  proof (cases "shouldTruncateResults cfg")
    case False
    with Some assms show ?thesis by (simp add: reduceContext_def)
  next
    case True
    obtain b ms' where t: "truncateToolResults ms (int idx) = (b, ms')"
      by (cases "truncateToolResults ms (int idx)")
    show ?thesis
    proof (cases b)
      case True
      with t Some assms \<open>shouldTruncateResults cfg\<close> show ?thesis
        by (auto simp: reduceContext_def)
    next
      case False
      with t have "ms' = ms" by (simp add: truncateToolResults_False)
      with t False Some assms \<open>shouldTruncateResults cfg\<close> show ?thesis
        by (simp add: reduceContext_def)
    qed
  qed
qed

lemma hasToolResult_firstToolResult:
  "hasToolResult m \<longleftrightarrow> firstToolResult (content m) \<noteq> None"
proof -
  have "list_ex isToolResultBlock bs \<longleftrightarrow> firstToolResult bs \<noteq> None" for bs
    by (induction bs rule: firstToolResult.induct) simp_all
  then show ?thesis by (simp add: hasToolResult_def)
qed

lemma trimMessages_single:
  "trimMessages ws [m] = Inl (ContextWindowOverflowError ''Unable to trim conversation context!'')"
proof -
  have "length [m] \<le> initialTrimIndex ws [m]" using initialTrimIndex_pos[of ws "[m]"] by simp
  then have "findTrimIndex [m] (initialTrimIndex ws [m]) = initialTrimIndex ws [m]"
    by (rule findTrimIndex_beyond)
  with \<open>length [m] \<le> initialTrimIndex ws [m]\<close> show ?thesis
    by (simp add: trimMessages_def)
qed

subsection \<open>Truncation of an already truncated result\<close>

text \<open>
  Claim C7, as amended.  Running tool-result truncation on a message whose first tool-result
  block has error status and the text \<open>The tool result was too large!\<close> as its first
  content block (which is what truncation writes) changes nothing: the array is returned as
  it was, with the flag \<open>False\<close>.  Only the first tool-result block of the message is
  looked at, and the status is part of the test as well as the text: when that block has
  another status or another text, the message is truncated (every tool-result block of it
  replaced by the placeholder error result) and the flag is \<open>True\<close>.
\<close>

theorem truncateToolResults_already_truncated:
  assumes "i < length msgs"
    and "firstToolResult (content (msgs ! i)) = Some r"
  shows "(status r = StatusError \<and> contentText (resultContent r) = toolResultTooLargeMessage \<longrightarrow>
            truncateToolResults msgs (int i) = (False, msgs)) \<and>
         (\<not> (status r = StatusError \<and> contentText (resultContent r) = toolResultTooLargeMessage) \<longrightarrow>
            truncateToolResults msgs (int i) =
              (True, msgs[i := \<lparr>role = role (msgs ! i),
                               content = map truncateBlock (content (msgs ! i)), author = None\<rparr>]))"
  using assms by (auto simp: truncateToolResults_def Let_def)

theorem truncateToolResults_already_truncated_witness:
  "truncateToolResults
     [\<lparr>role = User,
       content = [ToolResultBlock \<lparr>toolUseId = ''tool-1'', status = StatusError,
          resultContent = [TextContent ''The tool result was too large!''],
          resultError = None\<rparr>],
       author = None\<rparr>] 0
   = (False,
     [\<lparr>role = User,
       content = [ToolResultBlock \<lparr>toolUseId = ''tool-1'', status = StatusError,
          resultContent = [TextContent ''The tool result was too large!''],
          resultError = None\<rparr>],
       author = None\<rparr>])"
  using truncateToolResults_already_truncated
    [of 0 "[\<lparr>role = User,
       content = [ToolResultBlock \<lparr>toolUseId = ''tool-1'', status = StatusError,
          resultContent = [TextContent ''The tool result was too large!''],
          resultError = None\<rparr>],
       author = None\<rparr>]"
       "\<lparr>toolUseId = ''tool-1'', status = StatusError,
          resultContent = [TextContent ''The tool result was too large!''],
          resultError = None\<rparr>"]
  by (simp add: toolResultTooLargeMessage_def)

text \<open>
  The text alone does not make the run a no-op.  A result with success status whose text is
  the placeholder is truncated like any other: the array changes (the status becomes error)
  and the flag is \<open>True\<close>.
\<close>

theorem truncateToolResults_already_truncated_counterexample:
  "truncateToolResults
     [\<lparr>role = User,
       content = [ToolResultBlock \<lparr>toolUseId = ''tool-1'', status = StatusSuccess,
          resultContent = [TextContent ''The tool result was too large!''],
          resultError = None\<rparr>],
       author = None\<rparr>] 0
   = (True,
     [\<lparr>role = User,
       content = [ToolResultBlock \<lparr>toolUseId = ''tool-1'', status = StatusError,
          resultContent = [TextContent ''The tool result was too large!''],
          resultError = None\<rparr>],
       author = None\<rparr>])"
  by (simp add: truncateToolResults_def toolResultTooLargeMessage_def)

text \<open>Run a second time on the array it has just changed, truncation changes nothing.\<close>

lemma firstToolResult_truncate:
  "firstToolResult bs = Some r \<Longrightarrow>
     firstToolResult (map truncateBlock bs) =
       Some \<lparr>toolUseId = toolUseId r, status = StatusError,
             resultContent = [TextContent toolResultTooLargeMessage], resultError = None\<rparr>"
  by (induction bs rule: firstToolResult.induct) simp_all

lemma truncateToolResults_twice:
  assumes "truncateToolResults msgs i = (True, msgs')"
  shows "truncateToolResults msgs' i = (False, msgs')"
proof -
  from assms have range: "0 \<le> i" "i < int (length msgs)"
    using truncateToolResults_True_range by blast+
  then have n: "nat i < length msgs" by linarith
  from assms range obtain r where
    r: "firstToolResult (content (msgs ! nat i)) = Some r"
    and m: "msgs' = msgs[nat i := \<lparr>role = role (msgs ! nat i),
                  content = map truncateBlock (content (msgs ! nat i)), author = None\<rparr>]"
    by (auto simp: truncateToolResults_def Let_def split: option.splits if_splits)
  have "firstToolResult (content (msgs' ! nat i)) =
          Some \<lparr>toolUseId = toolUseId r, status = StatusError,
             resultContent = [TextContent toolResultTooLargeMessage], resultError = None\<rparr>"
    using n by (simp add: m firstToolResult_truncate[OF r])
  moreover have "i < int (length msgs')" "\<not> i < 0" using range by (simp_all add: m)
  ultimately show ?thesis
    by (simp add: truncateToolResults_def)
qed

subsection \<open>The pairing invariant\<close>

text \<open>
  Claim C1, as amended.  The reducer keeps the pairing invariant rather than establishing
  it.  Every history \<open>r\<close> produced by a successful run of \<open>reduceContext\<close> is non-empty;
  if the input did not start with a tool-result message, neither does \<open>r\<close>; if no
  tool use dangled in the input, none dangles in \<open>r\<close>.  When messages were dropped
  (Phase 2), whatever the input, \<open>r\<close> does not start with a tool-result message, and a
  tool use in its first message is followed by a message with a tool result.  A run that
  drops no message (Phase 1) keeps the number of messages and, message by message, whether
  the message has a tool-use block and whether it has a tool-result block: \<open>r\<close> is the
  input with one message replaced, the tool-result blocks of that message truncated, its
  other blocks and its role kept.
\<close>

theorem reduceContext_pairing:
  assumes "reduceContext cfg msgs = Inr r"
  shows "r \<noteq> [] \<and>
     (\<not> startsWithToolResult msgs \<longrightarrow> \<not> startsWithToolResult r) \<and>
     (\<not> danglingToolUse msgs \<longrightarrow> \<not> danglingToolUse r) \<and>
     (length r < length msgs \<longrightarrow>
        \<not> startsWithToolResult r \<and>
        (hasToolUse (hd r) \<longrightarrow> 1 < length r \<and> hasToolResult (r ! 1))) \<and>
     (\<not> length r < length msgs \<longrightarrow>
        length r = length msgs \<and> map kinds r = map kinds msgs \<and>
        (\<exists>idx < length msgs.
           r = msgs[idx := \<lparr>role = role (msgs ! idx),
                  content = map truncateBlock (content (msgs ! idx)), author = None\<rparr>]))"
  using reduceContext_Inr_cases[OF assms]
proof
  assume "\<exists>idx. truncateToolResults msgs (int idx) = (True, r)"
  then obtain idx where t: "truncateToolResults msgs (int idx) = (True, r)" ..
  have k: "map kinds r = map kinds msgs" using t by (rule truncateToolResults_kinds)
  have len: "length r = length msgs" using t by (rule truncateToolResults_length)
  have "msgs \<noteq> []" using truncateToolResults_True_range[OF t] by auto
  with len have ne: "r \<noteq> []" by auto
  have rng: "idx < length msgs" using truncateToolResults_True_range[OF t] by simp
  have "r = msgs[idx := \<lparr>role = role (msgs ! idx),
                  content = map truncateBlock (content (msgs ! idx)), author = None\<rparr>]"
    using t rng by (auto simp: truncateToolResults_def Let_def split: option.splits if_splits)
  with rng have ex: "\<exists>idx < length msgs.
           r = msgs[idx := \<lparr>role = role (msgs ! idx),
                  content = map truncateBlock (content (msgs ! idx)), author = None\<rparr>]"
    by blast
  from ne len k ex startsWithToolResult_kinds[OF k] danglingToolUse_kinds[OF k]
  show ?thesis by simp
next
  assume "trimMessages (windowSize cfg) msgs = Inr r"
  from trimMessages_Inr[OF this] obtain k where
    k: "1 \<le> k" "k < length msgs" "\<not> invalidTrimPoint msgs k" "r = drop k msgs"
    by blast
  have ne: "r \<noteq> []" using k by simp
  have hd: "hd r = msgs ! k" using k by (simp add: hd_drop_conv_nth)
  have st: "startsWithToolResult r = hasToolResult (msgs ! k)"
    using ne hd by (cases r) (auto simp: startsWithToolResult_def)
  have nxt: "Suc k < length msgs \<Longrightarrow> r ! 1 = msgs ! Suc k" using k by simp
  have "\<not> startsWithToolResult r" using st k(3) by (simp add: invalidTrimPoint_def)
  moreover have "hasToolUse (hd r) \<longrightarrow> 1 < length r \<and> hasToolResult (r ! 1)"
    using k(3) hd nxt k(2,4) by (auto simp: invalidTrimPoint_def)
  moreover have "\<not> danglingToolUse msgs \<longrightarrow> \<not> danglingToolUse r"
    using danglingToolUse_drop[of k msgs] k(4) by auto
  moreover have "length r < length msgs" using k by simp
  ultimately show ?thesis using ne by simp
qed

theorem reduceContext_pairing_witness:
  "reduceContext \<lparr>windowSize = 2, shouldTruncateResults = False\<rparr>
     [textMessage User ''Message 1'', toolUseMessage ''tool1'' ''id-1'',
      toolResultMessage ''id-1'' StatusSuccess ''Result'', textMessage Assistant ''Response'',
      textMessage User ''Message 2'']
     = Inr [textMessage Assistant ''Response'', textMessage User ''Message 2''] \<and>
   \<not> startsWithToolResult [textMessage Assistant ''Response'', textMessage User ''Message 2''] \<and>
   \<not> danglingToolUse [textMessage Assistant ''Response'', textMessage User ''Message 2''] \<and>
   reduceContext defaultConfig largeHistory
     = Inr [textMessage User ''question'', toolUseMessage ''tool1'' ''id-1'',
            toolResultMessage ''id-1'' StatusError ''The tool result was too large!''] \<and>
   map kinds [textMessage User ''question'', toolUseMessage ''tool1'' ''id-1'',
            toolResultMessage ''id-1'' StatusError ''The tool result was too large!'']
     = map kinds largeHistory"
proof -
  have h: "reduceContext \<lparr>windowSize = 2, shouldTruncateResults = False\<rparr>
     [textMessage User ''Message 1'', toolUseMessage ''tool1'' ''id-1'',
      toolResultMessage ''id-1'' StatusSuccess ''Result'', textMessage Assistant ''Response'',
      textMessage User ''Message 2'']
     = Inr [textMessage Assistant ''Response'', textMessage User ''Message 2'']"
    by (simp add: eval_defs sample_defs)
  have d: "\<not> danglingToolUse [textMessage User ''Message 1'', toolUseMessage ''tool1'' ''id-1'',
      toolResultMessage ''id-1'' StatusSuccess ''Result'', textMessage Assistant ''Response'',
      textMessage User ''Message 2'']"
    by (simp add: sample_defs hasToolUse_def hasToolResult_def)
  have h2: "reduceContext defaultConfig largeHistory
     = Inr [textMessage User ''question'', toolUseMessage ''tool1'' ''id-1'',
            toolResultMessage ''id-1'' StatusError ''The tool result was too large!'']"
    by (simp add: eval_defs sample_defs largeHistory_def)
  have l: "length [textMessage User ''question'', toolUseMessage ''tool1'' ''id-1'',
            toolResultMessage ''id-1'' StatusError ''The tool result was too large!'']
           = length largeHistory"
    by (simp add: largeHistory_def)
  have k: "map kinds [textMessage User ''question'', toolUseMessage ''tool1'' ''id-1'',
            toolResultMessage ''id-1'' StatusError ''The tool result was too large!'']
     = map kinds largeHistory"
    using reduceContext_pairing[OF h2] l by simp
  show ?thesis using h d h2 k reduceContext_pairing[OF h] by simp
qed

text \<open>
  The claim as stated fails on both halves.  Phase 1 returns after truncating, so a history
  that is a single tool-result message comes back as a single tool-result message; and
  Phase 2 checks only the message it cuts at, so a tool use that dangles further on is kept.
\<close>

theorem reduceContext_pairing_counterexample:
  "reduceContext defaultConfig [toolResultMessage ''tool-1'' StatusSuccess ''Large tool result content'']
     = Inr [toolResultMessage ''tool-1'' StatusError ''The tool result was too large!''] \<and>
   startsWithToolResult [toolResultMessage ''tool-1'' StatusError ''The tool result was too large!''] \<and>
   reduceContext \<lparr>windowSize = 2, shouldTruncateResults = False\<rparr>
     [textMessage User ''a'', textMessage Assistant ''b'', textMessage User ''c'',
      toolUseMessage ''tool1'' ''id-1'']
     = Inr [textMessage User ''c'', toolUseMessage ''tool1'' ''id-1''] \<and>
   danglingToolUse [textMessage User ''c'', toolUseMessage ''tool1'' ''id-1'']"
  by (simp add: eval_defs sample_defs startsWithToolResult_def)


subsection \<open>Message trimming\<close>

text \<open>Phase 2 is all of \<open>reduceContext\<close> when Phase 1 does not apply: no message
  has a tool result, truncation is switched off, or truncation reports no change.\<close>

lemma reduceContext_trims:
  assumes "\<And>idx. findLastMessageWithToolResults msgs = Some idx \<Longrightarrow>
             \<not> shouldTruncateResults cfg \<or> \<not> fst (truncateToolResults msgs (int idx))"
  shows "reduceContext cfg msgs = trimMessages (windowSize cfg) msgs"
proof (cases "findLastMessageWithToolResults msgs")
  case None
  then show ?thesis by (simp add: reduceContext_def)
next
  case (Some idx)
  show ?thesis
  proof (cases "shouldTruncateResults cfg")
    case False
    with Some show ?thesis by (simp add: reduceContext_def)
  next
    case True
    with assms[OF Some] have f: "\<not> fst (truncateToolResults msgs (int idx))" by simp
    obtain b ms' where t: "truncateToolResults msgs (int idx) = (b, ms')"
      by (cases "truncateToolResults msgs (int idx)")
    with f have "b = False" by simp
    with t have "truncateToolResults msgs (int idx) = (False, ms')" by simp
    moreover from this have "ms' = msgs" by (rule truncateToolResults_False)
    ultimately show ?thesis using Some True by (simp add: reduceContext_def)
  qed
qed

text \<open>
  Claim C2, as amended.  Phase 2 starts at \<open>c = length - windowSize\<close> when the history is
  longer than the window and at \<open>c = 2\<close> otherwise, and scans forward.  An index is
  skipped when its message has a tool-result block, or has a tool-use block while the next
  message is missing or has no tool-result block at all (the ids are not compared).  If
  every index from \<open>c\<close> to the end is skipped, a context-window-overflow error is raised;
  otherwise the messages before the first index \<open>k \<ge> c\<close> that is not skipped are
  removed and the messages from \<open>k\<close> on are kept as they are.
\<close>

theorem trimMessages_scan:
  fixes ws :: int and msgs :: "message list"
  defines "c \<equiv> if int (length msgs) > ws then nat (int (length msgs) - ws) else 2"
  defines "skipped \<equiv> \<lambda>i. hasToolResult (msgs ! i) \<or>
                   (hasToolUse (msgs ! i) \<and>
                    \<not> (Suc i < length msgs \<and> hasToolResult (msgs ! Suc i)))"
  shows "((\<forall>i. c \<le> i \<and> i < length msgs \<longrightarrow> skipped i) \<longrightarrow>
            trimMessages ws msgs =
              Inl (ContextWindowOverflowError ''Unable to trim conversation context!'')) \<and>
         (\<forall>k. c \<le> k \<and> k < length msgs \<and> \<not> skipped k \<and>
              (\<forall>i. c \<le> i \<and> i < k \<longrightarrow> skipped i) \<longrightarrow>
              trimMessages ws msgs = Inr (drop k msgs))"
proof -
  have c: "c = initialTrimIndex ws msgs"
    by (simp add: c_def initialTrimIndex_def)
  have s: "skipped = invalidTrimPoint msgs"
    by (rule ext) (simp add: skipped_def invalidTrimPoint_def)
  have first: "trimMessages ws msgs = Inr (drop k msgs)"
    if k: "c \<le> k" "k < length msgs" "\<not> skipped k" "\<forall>i. c \<le> i \<and> i < k \<longrightarrow> skipped i" for k
  proof -
    from trimMessages_cases[of ws msgs] k(1,2,3)
    obtain k' where k': "c \<le> k'" "k' < length msgs" "\<not> skipped k'"
        "\<forall>i. c \<le> i \<and> i < k' \<longrightarrow> skipped i" "trimMessages ws msgs = Inr (drop k' msgs)"
      unfolding c s by blast
    have "\<not> k' < k" using k(4) k'(1,3) by blast
    moreover have "\<not> k < k'" using k'(4) k(1,3) by blast
    ultimately have "k' = k" by simp
    with k'(5) show ?thesis by simp
  qed
  have none: "trimMessages ws msgs =
       Inl (ContextWindowOverflowError ''Unable to trim conversation context!'')"
    if "\<forall>i. c \<le> i \<and> i < length msgs \<longrightarrow> skipped i"
    using trimMessages_cases[of ws msgs] that unfolding c s by blast
  from first none show ?thesis by blast
qed

theorem trimMessages_scan_witness:
  "(\<exists>k. 2 \<le> k \<and> k < 4 \<and>
      trimMessages 2 [toolUseMessage ''tool1'' ''id-1'', toolResultMessage ''id-1'' StatusSuccess ''Result'',
                      textMessage Assistant ''Response'', textMessage User ''Message'']
        = Inr (drop k [toolUseMessage ''tool1'' ''id-1'', toolResultMessage ''id-1'' StatusSuccess ''Result'',
                      textMessage Assistant ''Response'', textMessage User ''Message''])) \<and>
   trimMessages 2 [toolUseMessage ''tool1'' ''id-1'', toolResultMessage ''id-1'' StatusSuccess ''Result'',
                      textMessage Assistant ''Response'', textMessage User ''Message'']
     = Inr [textMessage Assistant ''Response'', textMessage User ''Message'']"
proof -
  let ?ms = "[toolUseMessage ''tool1'' ''id-1'', toolResultMessage ''id-1'' StatusSuccess ''Result'',
              textMessage Assistant ''Response'', textMessage User ''Message'']"
  have e: "trimMessages 2 ?ms = Inr [textMessage Assistant ''Response'', textMessage User ''Message'']"
    by (simp add: eval_defs sample_defs)
  have v: "\<not> (hasToolResult (?ms ! 2) \<or>
              (hasToolUse (?ms ! 2) \<and> \<not> (Suc 2 < length ?ms \<and> hasToolResult (?ms ! Suc 2))))"
    by (simp add: sample_defs hasToolResult_def hasToolUse_def)
  from trimMessages_scan[of 2 ?ms, THEN conjunct2, THEN spec[where x = "2::nat"]] v
  have "trimMessages 2 ?ms = Inr (drop 2 ?ms)"
    by auto
  then have "\<exists>k. 2 \<le> k \<and> k < 4 \<and> trimMessages 2 ?ms = Inr (drop k ?ms)"
    by (intro exI[of _ 2]) simp
  with e show ?thesis by simp
qed

text \<open>
  The claim as stated asks for the paired result.  A tool use \<open>id-1\<close> followed by a
  message that holds the result of \<open>id-2\<close> is not skipped: the history is cut there.
\<close>

theorem trimMessages_scan_counterexample:
  "trimMessages 2 [textMessage User ''a'', textMessage Assistant ''b'',
                   toolUseMessage ''tool1'' ''id-1'', toolResultMessage ''id-2'' StatusSuccess ''Result'']
     = Inr [toolUseMessage ''tool1'' ''id-1'', toolResultMessage ''id-2'' StatusSuccess ''Result''] \<and>
   spec_unpairedToolUse [textMessage User ''a'', textMessage Assistant ''b'',
                   toolUseMessage ''tool1'' ''id-1'', toolResultMessage ''id-2'' StatusSuccess ''Result''] 2"
  by (simp add: eval_defs sample_defs spec_unpairedToolUse_def)

subsection \<open>A history of one tool-result message\<close>

text \<open>
  Claim C4, as amended.  For a history of a single message with a tool-result block, and
  any window size (0 included): reduction raises the context-overflow error when
  \<open>shouldTruncateResults\<close> is off, or when the first tool result of the message is
  already the placeholder; with \<open>shouldTruncateResults\<close> on (the default) and a result
  that is not the placeholder, reduction succeeds and returns the message with its tool
  results replaced by the placeholder.
\<close>

theorem reduceContext_single_toolResult:
  assumes "firstToolResult (content m) = Some res"
  shows "reduceContext cfg [m] =
     (if shouldTruncateResults cfg \<and>
         \<not> (status res = StatusError \<and> contentText (resultContent res) = toolResultTooLargeMessage)
      then Inr [\<lparr>role = role m, content = map truncateBlock (content m), author = None\<rparr>]
      else Inl (ContextWindowOverflowError ''Unable to trim conversation context!''))"
proof -
  have "hasToolResult m" using assms by (simp add: hasToolResult_firstToolResult)
  then have f: "findLastMessageWithToolResults [m] = Some 0"
    by (simp add: findLastMessageWithToolResults_def)
  show ?thesis
    using assms
    by (simp add: reduceContext_def f truncateToolResults_def trimMessages_single)
qed

theorem reduceContext_single_toolResult_witness:
  "reduceContext \<lparr>windowSize = 0, shouldTruncateResults = False\<rparr>
      [toolResultMessage ''id-1'' StatusSuccess ''Result'']
     = Inl (ContextWindowOverflowError ''Unable to trim conversation context!'') \<and>
   reduceContext \<lparr>windowSize = 0, shouldTruncateResults = True\<rparr>
      [toolResultMessage ''id-1'' StatusError ''The tool result was too large!'']
     = Inl (ContextWindowOverflowError ''Unable to trim conversation context!'')"
  using reduceContext_single_toolResult
    [of "toolResultMessage ''id-1'' StatusSuccess ''Result''"
        "\<lparr>toolUseId = ''id-1'', status = StatusSuccess, resultContent = [TextContent ''Result''],
          resultError = None\<rparr>" "\<lparr>windowSize = 0, shouldTruncateResults = False\<rparr>"]
    reduceContext_single_toolResult
    [of "toolResultMessage ''id-1'' StatusError ''The tool result was too large!''"
        "\<lparr>toolUseId = ''id-1'', status = StatusError,
          resultContent = [TextContent ''The tool result was too large!''],
          resultError = None\<rparr>" "\<lparr>windowSize = 0, shouldTruncateResults = True\<rparr>"]
  by (simp add: sample_defs toolResultTooLargeMessage_def)

text \<open>The scenario of the claim: window size 0, truncation on, one tool-result message
  with content \<open>Result\<close>.  No error is raised.\<close>

theorem reduceContext_single_toolResult_counterexample:
  "reduceContext \<lparr>windowSize = 0, shouldTruncateResults = True\<rparr>
      [toolResultMessage ''id-1'' StatusSuccess ''Result'']
     = Inr [toolResultMessage ''id-1'' StatusError ''The tool result was too large!'']"
  by (simp add: eval_defs sample_defs)

section \<open>Properties of the entry points\<close>

lemmas entry_defs = stream_def streamFromEntry_def acquireLock_def runEntry_def advance_def
  dispose_def sampleEnv_def callNext_def

subsection \<open>invoke drains the stream\<close>

lemma exhausted_invoke:
  "exhausted gen s evs out s' \<Longrightarrow> invoke gen s = Some (out, s')"
proof (induction rule: exhausted.induct)
  case (returns gen s r s')
  then show ?case by (subst invoke.simps) simp
next
  case (throws gen s err s')
  then show ?case by (subst invoke.simps) simp
next
  case (yields gen s ev s1 evs out s')
  then show ?case by (subst invoke.simps) simp
qed

lemma invoke_exhausted:
  "invoke gen s = Some res \<Longrightarrow> \<exists>evs. exhausted gen s evs (fst res) (snd res)"
proof (induction gen s res rule: invoke.raw_induct[rotated 1, consumes 1, case_names step])
  case (step invoke' gen s res)
  obtain x s1 where g: "gen s = (x, s1)" by (cases "gen s")
  show ?case
  proof (cases x)
    case (Inl err)
    with step(2) g have "res = (Inl err, s1)" by simp
    with g Inl show ?thesis by (auto intro: exhausted.throws)
  next
    case (Inr ir)
    show ?thesis
    proof (cases ir)
      case (IterYield ev)
      with step(2) g Inr have "invoke' gen s1 = Some res" by simp
      from step(1)[OF this] obtain evs where "exhausted gen s1 evs (fst res) (snd res)" ..
      with g Inr IterYield have "exhausted gen s (ev # evs) (fst res) (snd res)"
        by (auto intro: exhausted.yields)
      then show ?thesis ..
    next
      case (IterReturn r)
      with step(2) g Inr have "res = (Inr r, s1)" by simp
      with g Inr IterReturn show ?thesis by (auto intro: exhausted.returns)
    qed
  qed
qed

text \<open>
  Claim C9.  \<open>invoke\<close> returns exactly what the stream's generator finishes with when it
  is consumed to the end, and leaves the state the consumption leaves: \<open>invoke\<close> gives
  \<open>out\<close> in state \<open>s'\<close> if and only if the generator, consumed from \<open>s\<close>, yields some
  events and then finishes with \<open>out\<close> (the returned result, or the error thrown) in
  \<open>s'\<close>.  The events are all that \<open>invoke\<close> drops.  For the agent the generator is
  \<open>stream env\<close>; the statement holds for any generator.
\<close>

theorem invoke_returns_stream_result:
  "invoke gen s = Some (out, s') \<longleftrightarrow> (\<exists>evs. exhausted gen s evs out s')"
  using invoke_exhausted[of gen s "(out, s')"] exhausted_invoke[of gen s _ out s'] by auto


theorem invoke_returns_stream_result_witness:
  "invoke (stream sampleEnv) (NotStarted 1, \<lparr>isInvoking = False, rest = 0\<rparr>) =
     Some (Inr (Some ''result''), (Completed, \<lparr>isInvoking = False, rest = 1\<rparr>))"
proof -
  have 1: "stream sampleEnv (NotStarted 1, \<lparr>isInvoking = False, rest = 0\<rparr>) =
             (Inr (IterYield ''event''), (Suspended 0, \<lparr>isInvoking = True, rest = 1\<rparr>))"
    by (simp add: entry_defs)
  have 2: "stream sampleEnv (Suspended 0, \<lparr>isInvoking = True, rest = 1\<rparr>) =
             (Inr (IterYield ''result''), (YieldedResult ''result'', \<lparr>isInvoking = True, rest = 1\<rparr>))"
    by (simp add: entry_defs)
  have 3: "stream sampleEnv (YieldedResult ''result'', \<lparr>isInvoking = True, rest = 1\<rparr>) =
             (Inr (IterReturn (Some ''result'')), (Completed, \<lparr>isInvoking = False, rest = 1\<rparr>))"
    by (simp add: entry_defs)
  have "exhausted (stream sampleEnv) (NotStarted 1, \<lparr>isInvoking = False, rest = 0\<rparr>)
          [''event'', ''result''] (Inr (Some ''result''))
          (Completed, \<lparr>isInvoking = False, rest = 1\<rparr>)"
    by (rule exhausted.yields[where gen = "stream sampleEnv", OF 1],
        rule exhausted.yields[where gen = "stream sampleEnv", OF 2],
        rule exhausted.returns[where gen = "stream sampleEnv", OF 3])
  then show ?thesis
    using invoke_returns_stream_result
      [of "stream sampleEnv" "(NotStarted 1, \<lparr>isInvoking = False, rest = 0\<rparr>)"
          "Inr (Some ''result'')" "(Completed, \<lparr>isInvoking = False, rest = 1\<rparr>)"]
    by blast
qed

subsection \<open>The concurrency guard\<close>

lemma advance_lock:
  assumes "advance env g agent = (res, pc', agent')"
  shows "(pc' = Completed \<and> \<not> isInvoking agent') \<or>
         (inFlight pc' \<and> isInvoking agent' = isInvoking agent)"
  using assms
  by (auto simp: advance_def dispose_def
           split: prod.splits sum.splits iterator_result.splits option.splits)

lemma runEntry_lock:
  assumes "runEntry env g agent = (res, pc', agent')"
  shows "(pc' = Completed \<and> \<not> isInvoking agent') \<or>
         (inFlight pc' \<and> isInvoking agent' = isInvoking agent)"
proof (cases "initialize env (rest agent)")
  case (Pair e h)
  show ?thesis
  proof (cases e)
    case None
    with Pair assms have "advance env g (agent\<lparr>rest := h\<rparr>) = (res, pc', agent')"
      by (simp add: runEntry_def)
    from advance_lock[OF this] show ?thesis by simp
  next
    case (Some err)
    with Pair assms show ?thesis by (auto simp: runEntry_def dispose_def)
  qed
qed

lemma streamFromEntry_locked:
  "isInvoking agent \<Longrightarrow>
     streamFromEntry env (NotStarted g) agent =
       (Inl (ConcurrentInvocationError concurrentInvocationMessage), Completed, agent)"
  by (simp add: streamFromEntry_def acquireLock_def)

lemma streamFromEntry_unlocked:
  "\<not> isInvoking agent \<Longrightarrow>
     streamFromEntry env (NotStarted g) agent = runEntry env g (agent\<lparr>isInvoking := True\<rparr>)"
  by (simp add: streamFromEntry_def acquireLock_def)

lemma streamFromEntry_lock:
  assumes "streamFromEntry env pc agent = (res, pc', agent')"
    and "inFlight pc \<longrightarrow> isInvoking agent"
  shows "(inFlight pc' \<and> isInvoking agent' \<and> (inFlight pc \<or> \<not> isInvoking agent)) \<or>
         (\<not> inFlight pc' \<and> \<not> inFlight pc \<and> isInvoking agent' = isInvoking agent) \<or>
         (pc' = Completed \<and> inFlight pc \<and> \<not> isInvoking agent') \<or>
         (pc' = Completed \<and> \<not> inFlight pc \<and> \<not> isInvoking agent \<and> \<not> isInvoking agent')"
proof (cases pc)
  case (NotStarted g)
  show ?thesis
  proof (cases "isInvoking agent")
    case True
    with NotStarted assms show ?thesis by (simp add: streamFromEntry_locked)
  next
    case False
    with NotStarted assms have "runEntry env g (agent\<lparr>isInvoking := True\<rparr>) = (res, pc', agent')"
      by (simp add: streamFromEntry_unlocked)
    from runEntry_lock[OF this] False NotStarted show ?thesis by auto
  qed
next
  case (Suspended g)
  with assms have "advance env g agent = (res, pc', agent')" by (simp add: streamFromEntry_def)
  from advance_lock[OF this] Suspended assms(2) show ?thesis by auto
next
  case (YieldedResult r)
  with assms show ?thesis by (auto simp: streamFromEntry_def dispose_def)
next
  case Completed
  with assms show ?thesis by (auto simp: streamFromEntry_def)
qed

lemma count_update:
  "i < length xs \<Longrightarrow>
     length (filter P (xs[i := y])) + (if P (xs ! i) then 1 else 0)
       = length (filter P xs) + (if P y then 1 else 0)"
proof (induction xs arbitrary: i)
  case Nil
  then show ?case by simp
next
  case (Cons x xs)
  then show ?case by (cases i) auto
qed

lemma inFlight_count: "i < length xs \<Longrightarrow> P (xs ! i) \<Longrightarrow> 1 \<le> length (filter P xs)"
proof -
  assume "i < length xs" "P (xs ! i)"
  then have "xs ! i \<in> set (filter P xs)" by simp
  then have "filter P xs \<noteq> []" by (metis empty_iff list.set(1))
  then show ?thesis by (cases "filter P xs") auto
qed

lemma lockInvariant_held:
  "lockInvariant (pcs, agent) \<Longrightarrow> i < length pcs \<Longrightarrow> inFlight (pcs ! i) \<Longrightarrow> isInvoking agent"
  using inFlight_count[of i pcs inFlight] by (auto simp: lockInvariant_def split: if_splits)

lemma lockInvariant_callNext:
  assumes inv: "lockInvariant (pcs, agent)" and i: "i < length pcs"
    and step: "callNext env i (pcs, agent) = (res, pcs', agent')"
  shows "lockInvariant (pcs', agent')"
proof -
  obtain pc' where s: "streamFromEntry env (pcs ! i) agent = (res, pc', agent')"
    and pcs': "pcs' = pcs[i := pc']"
    using step by (auto simp: callNext_def split: prod.splits)
  have held: "inFlight (pcs ! i) \<longrightarrow> isInvoking agent"
    using lockInvariant_held[OF inv i] by simp
  from count_update[OF i, of inFlight pc']
  have c: "length (filter inFlight pcs') + (if inFlight (pcs ! i) then 1 else 0)
           = length (filter inFlight pcs) + (if inFlight pc' then 1 else 0)"
    by (simp add: pcs')
  from streamFromEntry_lock[OF s held] inv c held show ?thesis
    by (auto simp: lockInvariant_def split: if_splits)
qed

lemma lockInvariant_initial:
  "\<not> isInvoking agent \<Longrightarrow> lockInvariant (map NotStarted gs, agent)"
  by (simp add: lockInvariant_def filter_empty_conv)

lemma streamFromEntry_exit:
  assumes "streamFromEntry env pc agent = (res, pc', agent')"
  shows "(\<forall>e. res = Inl e \<longrightarrow> pc' = Completed) \<and> (\<forall>v. res = Inr (IterReturn v) \<longrightarrow> pc' = Completed)"
  using assms
  by (auto simp: streamFromEntry_def acquireLock_def runEntry_def advance_def
           split: entry_pc.splits if_splits prod.splits sum.splits iterator_result.splits option.splits)

lemma streamFromEntryReturn_lock:
  assumes "streamFromEntryReturn pc agent = (pc', agent')"
  shows "pc' = Completed \<and> (if inFlight pc then \<not> isInvoking agent' else agent' = agent)"
  using assms by (cases pc) (auto simp: streamFromEntryReturn_def dispose_def)

lemma lockInvariant_callReturn:
  assumes inv: "lockInvariant (pcs, agent)" and i: "i < length pcs"
  shows "lockInvariant (callReturn i (pcs, agent))"
proof -
  obtain pc' agent' where s: "streamFromEntryReturn (pcs ! i) agent = (pc', agent')"
    by (cases "streamFromEntryReturn (pcs ! i) agent")
  have r: "callReturn i (pcs, agent) = (pcs[i := pc'], agent')" by (simp add: callReturn_def s)
  have held: "inFlight (pcs ! i) \<longrightarrow> isInvoking agent"
    using lockInvariant_held[OF inv i] by simp
  from count_update[OF i, of inFlight pc']
  have c: "length (filter inFlight (pcs[i := pc'])) + (if inFlight (pcs ! i) then 1 else 0)
           = length (filter inFlight pcs) + (if inFlight pc' then 1 else 0)" .
  from streamFromEntryReturn_lock[OF s] inv c held show ?thesis
    by (auto simp: r lockInvariant_def split: if_splits)
qed

lemma callNext_length: "length (fst (snd (callNext env i sys))) = length (fst sys)"
  by (simp add: callNext_def split: prod.splits)

lemma callReturn_length: "length (fst (callReturn i sys)) = length (fst sys)"
  by (simp add: callReturn_def split: prod.splits)

lemma lockInvariant_runCalls:
  assumes "lockInvariant sys" and "\<forall>st \<in> set steps. stepIndex st < length (fst sys)"
  shows "lockInvariant (runCalls env steps sys)"
  using assms
proof (induction steps arbitrary: sys)
  case Nil
  then show ?case by simp
next
  case (Cons st steps)
  obtain pcs agent where sys: "sys = (pcs, agent)" by (cases sys)
  show ?case
  proof (cases st)
    case (Next i)
    obtain res pcs' agent' where step: "callNext env i (pcs, agent) = (res, pcs', agent')"
      by (cases "callNext env i (pcs, agent)")
    have i: "i < length pcs" using Cons.prems(2) Next sys by simp
    have inv': "lockInvariant (pcs', agent')"
      using lockInvariant_callNext[OF _ i step] Cons.prems(1) sys by simp
    have len: "length pcs' = length pcs" using callNext_length[of env i "(pcs, agent)"] step by simp
    have "lockInvariant (runCalls env steps (pcs', agent'))"
      using Cons.IH[OF inv'] Cons.prems(2) len sys by simp
    then show ?thesis using Next sys step by simp
  next
    case (Return i)
    have i: "i < length pcs" using Cons.prems(2) Return sys by simp
    have inv': "lockInvariant (callReturn i (pcs, agent))"
      using lockInvariant_callReturn[OF _ i] Cons.prems(1) sys by simp
    have len: "length (fst (callReturn i (pcs, agent))) = length pcs"
      using callReturn_length[of i "(pcs, agent)"] by simp
    have "lockInvariant (runCalls env steps (callReturn i (pcs, agent)))"
      using Cons.IH[OF inv'] Cons.prems(2) len sys by simp
    then show ?thesis using Return sys by simp
  qed
qed

text \<open>
  Claim C8.  Calls on the same root agent, their \<open>next()\<close> and \<open>return()\<close> made in any order.
  From a state in which the flag is set exactly while one call is in flight (the lock
  invariant):

    \<^item> while call \<open>i\<close> is in flight, the first \<open>next()\<close> of another call \<open>j\<close> throws the
      concurrent-invocation error at once; call \<open>j\<close> is completed, nothing is queued and the
      agent is untouched;
    \<^item> every \<open>next()\<close> of call \<open>i\<close> keeps the invariant; one that throws or returns
      completes the call; and one that completes a call that held the lock or took it in
      this very \<open>next()\<close> (so also when \<open>initialize()\<close> or the first step throws) leaves the
      flag clear, after which the first \<open>next()\<close> of call \<open>j\<close> takes the lock and runs the
      body;
    \<^item> an early \<open>return()\<close> on call \<open>i\<close> keeps the invariant, completes the call, and leaves
      the flag clear when the call held the lock.

  The invariant holds after every run that starts with no call started and the flag clear.
\<close>

theorem concurrency_guard:
  assumes inv: "lockInvariant (pcs, agent)"
    and i: "i < length pcs" and j: "j < length pcs" and ij: "i \<noteq> j"
  shows "(inFlight (pcs ! i) \<and> pcs ! j = NotStarted g \<longrightarrow>
            callNext env j (pcs, agent) =
              (Inl (ConcurrentInvocationError concurrentInvocationMessage), pcs[j := Completed], agent)) \<and>
         (\<forall>res pcs' agent'.
            callNext env i (pcs, agent) = (res, pcs', agent') \<longrightarrow>
              lockInvariant (pcs', agent') \<and>
              ((\<exists>e. res = Inl e) \<or> (\<exists>v. res = Inr (IterReturn v)) \<longrightarrow> pcs' ! i = Completed) \<and>
              (pcs' ! i = Completed \<and> (inFlight (pcs ! i) \<or> \<not> isInvoking agent) \<longrightarrow>
                 \<not> isInvoking agent' \<and>
                 (pcs ! j = NotStarted g \<longrightarrow>
                    callNext env j (pcs', agent') =
                      (case runEntry env g (agent'\<lparr>isInvoking := True\<rparr>) of
                         (res2, pc2, agent2) \<Rightarrow> (res2, pcs'[j := pc2], agent2))))) \<and>
         lockInvariant (callReturn i (pcs, agent)) \<and>
         fst (callReturn i (pcs, agent)) ! i = Completed \<and>
         (inFlight (pcs ! i) \<or> \<not> isInvoking agent \<longrightarrow> \<not> isInvoking (snd (callReturn i (pcs, agent)))) \<and>
         (inFlight (pcs ! i) \<longrightarrow> \<not> isInvoking (snd (streamFromEntryReturn (pcs ! i) agent))) \<and>
         ((\<forall>st \<in> set steps. stepIndex st < length gs) \<longrightarrow>
            lockInvariant (runCalls env steps (map NotStarted gs, agent0\<lparr>isInvoking := False\<rparr>)))"
proof -
  have held: "inFlight (pcs ! i) \<longrightarrow> isInvoking agent" using lockInvariant_held[OF inv i] by simp
  have c1: "inFlight (pcs ! i) \<and> pcs ! j = NotStarted g \<longrightarrow>
            callNext env j (pcs, agent) =
              (Inl (ConcurrentInvocationError concurrentInvocationMessage), pcs[j := Completed], agent)"
    using held by (simp add: callNext_def streamFromEntry_locked)
  have c2: "lockInvariant (pcs', agent') \<and>
              ((\<exists>e. res = Inl e) \<or> (\<exists>v. res = Inr (IterReturn v)) \<longrightarrow> pcs' ! i = Completed) \<and>
              (pcs' ! i = Completed \<and> (inFlight (pcs ! i) \<or> \<not> isInvoking agent) \<longrightarrow>
                 \<not> isInvoking agent' \<and>
                 (pcs ! j = NotStarted g \<longrightarrow>
                    callNext env j (pcs', agent') =
                      (case runEntry env g (agent'\<lparr>isInvoking := True\<rparr>) of
                         (res2, pc2, agent2) \<Rightarrow> (res2, pcs'[j := pc2], agent2))))"
    if step: "callNext env i (pcs, agent) = (res, pcs', agent')" for res pcs' agent'
  proof (intro conjI impI)
    show "lockInvariant (pcs', agent')" using lockInvariant_callNext[OF inv i step] .
    obtain pc' where s: "streamFromEntry env (pcs ! i) agent = (res, pc', agent')"
      and pcs': "pcs' = pcs[i := pc']"
      using step by (auto simp: callNext_def split: prod.splits)
    show "pcs' ! i = Completed" if "(\<exists>e. res = Inl e) \<or> (\<exists>v. res = Inr (IterReturn v))"
      using streamFromEntry_exit[OF s] that i by (auto simp: pcs')
    {
      assume a: "pcs' ! i = Completed \<and> (inFlight (pcs ! i) \<or> \<not> isInvoking agent)"
      then have pc': "pc' = Completed" using i by (simp add: pcs')
      from streamFromEntry_lock[OF s held] pc' a
      show unlocked: "\<not> isInvoking agent'" by auto
      assume second: "pcs ! j = NotStarted g"
      have "pcs' ! j = NotStarted g" using second ij by (simp add: pcs')
      with unlocked show "callNext env j (pcs', agent') =
                (case runEntry env g (agent'\<lparr>isInvoking := True\<rparr>) of
                   (res2, pc2, agent2) \<Rightarrow> (res2, pcs'[j := pc2], agent2))"
        by (simp add: callNext_def streamFromEntry_unlocked)
    }
  qed
  obtain pc' agent' where s: "streamFromEntryReturn (pcs ! i) agent = (pc', agent')"
    by (cases "streamFromEntryReturn (pcs ! i) agent")
  have r: "callReturn i (pcs, agent) = (pcs[i := pc'], agent')" by (simp add: callReturn_def s)
  have c3: "lockInvariant (callReturn i (pcs, agent))" using lockInvariant_callReturn[OF inv i] .
  have c4: "fst (callReturn i (pcs, agent)) ! i = Completed"
    using streamFromEntryReturn_lock[OF s] i by (simp add: r)
  have c5: "inFlight (pcs ! i) \<or> \<not> isInvoking agent \<longrightarrow> \<not> isInvoking (snd (callReturn i (pcs, agent)))"
    using streamFromEntryReturn_lock[OF s] by (auto simp: r split: if_splits)
  have c6: "inFlight (pcs ! i) \<longrightarrow> \<not> isInvoking (snd (streamFromEntryReturn (pcs ! i) agent))"
    using streamFromEntryReturn_lock[OF s] by (auto simp: s)
  have c7: "(\<forall>st \<in> set steps. stepIndex st < length gs) \<longrightarrow>
            lockInvariant (runCalls env steps (map NotStarted gs, agent0\<lparr>isInvoking := False\<rparr>))"
  proof
    assume b: "\<forall>st \<in> set steps. stepIndex st < length gs"
    have "lockInvariant (map NotStarted gs, agent0\<lparr>isInvoking := False\<rparr>)"
      by (rule lockInvariant_initial) simp
    from lockInvariant_runCalls[OF this, of steps env] b show
      "lockInvariant (runCalls env steps (map NotStarted gs, agent0\<lparr>isInvoking := False\<rparr>))" by simp
  qed
  from c1 c2 c3 c4 c5 c6 c7 show ?thesis by blast
qed

theorem concurrency_guard_witness:
  "callNext sampleEnv 1 ([Suspended 1, NotStarted 2], \<lparr>isInvoking = True, rest = 0\<rparr>) =
     (Inl (ConcurrentInvocationError concurrentInvocationMessage),
      [Suspended 1, Completed], \<lparr>isInvoking = True, rest = 0\<rparr>) \<and>
   callNext failingInitEnv 0 ([NotStarted 1, NotStarted 2], \<lparr>isInvoking = False, rest = 0\<rparr>) =
     (Inl (Error ''initialization failed''),
      [Completed, NotStarted 2], \<lparr>isInvoking = False, rest = 0\<rparr>) \<and>
   callNext failingInitEnv 1 ([Completed, NotStarted 2], \<lparr>isInvoking = False, rest = 0\<rparr>) =
     (Inl (Error ''initialization failed''),
      [Completed, Completed], \<lparr>isInvoking = False, rest = 0\<rparr>) \<and>
   callNext failingStepEnv 0 ([NotStarted 1, NotStarted 2], \<lparr>isInvoking = False, rest = 0\<rparr>) =
     (Inl (Error ''model failed''),
      [Completed, NotStarted 2], \<lparr>isInvoking = False, rest = 0\<rparr>) \<and>
   lockInvariant
     (runCalls sampleEnv [Next 0, Next 1, Return 0, Next 1]
        ([NotStarted 1, NotStarted 2], \<lparr>isInvoking = False, rest = 0\<rparr>))"
proof -
  have inv1: "lockInvariant ([Suspended (1::nat), NotStarted 2 :: (nat, string) entry_pc],
               \<lparr>isInvoking = True, rest = 0::nat\<rparr>)"
    by (simp add: lockInvariant_def)
  have inv2: "lockInvariant ([NotStarted (1::nat), NotStarted 2 :: (nat, string) entry_pc],
               \<lparr>isInvoking = False, rest = 0::nat\<rparr>)"
    by (simp add: lockInvariant_def)
  have a: "callNext sampleEnv 1 ([Suspended 1, NotStarted 2], \<lparr>isInvoking = True, rest = 0\<rparr>) =
     (Inl (ConcurrentInvocationError concurrentInvocationMessage),
      [Suspended 1, Completed], \<lparr>isInvoking = True, rest = 0\<rparr>)"
    using concurrency_guard[OF inv1, of 0 1 2 sampleEnv] by simp
  have b: "callNext failingInitEnv 0 ([NotStarted 1, NotStarted 2], \<lparr>isInvoking = False, rest = 0\<rparr>) =
     (Inl (Error ''initialization failed''),
      [Completed, NotStarted 2], \<lparr>isInvoking = False, rest = 0\<rparr>)"
    by (simp add: entry_defs failingInitEnv_def)
  have c: "callNext failingInitEnv 1 ([Completed, NotStarted 2], \<lparr>isInvoking = False, rest = 0\<rparr>) =
     (Inl (Error ''initialization failed''),
      [Completed, Completed], \<lparr>isInvoking = False, rest = 0\<rparr>)"
    using concurrency_guard[OF inv2, of 0 1 2 failingInitEnv] b
    by (simp add: entry_defs failingInitEnv_def)
  have d: "callNext failingStepEnv 0 ([NotStarted 1, NotStarted 2], \<lparr>isInvoking = False, rest = 0\<rparr>) =
     (Inl (Error ''model failed''),
      [Completed, NotStarted 2], \<lparr>isInvoking = False, rest = 0\<rparr>)"
    by (simp add: entry_defs failingStepEnv_def)
  have e: "lockInvariant
     (runCalls sampleEnv [Next 0, Next 1, Return 0, Next 1]
        ([NotStarted 1, NotStarted 2], \<lparr>isInvoking = False, rest = 0\<rparr>))"
    using concurrency_guard[OF inv2, of 0 1 2 sampleEnv "[Next 0, Next 1, Return 0, Next 1]" "[1, 2]"
            "\<lparr>isInvoking = False, rest = 0\<rparr>"]
    by simp
  from a b c d e show ?thesis by simp
qed

section \<open>Properties of the agent tree\<close>

lemmas tree_defs = newAgent_def wireAgentTree_def leafConfig_def Let_def namePresent_def
  nestedSubAgentsError_def getRootAgent_def depthBelowRoot_def

lemma twoLevels_eq:
  "twoLevels =
     [\<lparr>agentName = Some ''math'', subAgents = [], parentAgent = Some 1,
       disallowTransferToParent = False, disallowTransferToPeers = False, messagesOf = 1\<rparr>,
      \<lparr>agentName = Some ''root'', subAgents = [0], parentAgent = None,
       disallowTransferToParent = False, disallowTransferToPeers = False, messagesOf = 1\<rparr>]"
  by (simp add: twoLevels_def tree_defs)

text \<open>The two checks of the constructor: an agent with both a parent and children is
  refused, and so is an agent one of whose children has children.\<close>

lemma newAgent_parent_and_children:
  "cfgParentAgent cfg \<noteq> None \<Longrightarrow> cfgSubAgents cfg \<noteq> [] \<Longrightarrow>
     fst (newAgent cfg st) = Inl nestedSubAgentsError"
  by (simp add: newAgent_def wireAgentTree_def Let_def)

lemma wireChildren_nested:
  "c \<in> set cs \<Longrightarrow> subAgents (st ! c) \<noteq> [] \<Longrightarrow> \<forall>x\<in>set cs. x < length st \<Longrightarrow>
     fst (wireChildren this cs st) \<noteq> None"
proof (induction cs arbitrary: st)
  case Nil
  then show ?case by simp
next
  case (Cons child cs)
  show ?case
  proof (cases "subAgents (st ! child) \<noteq> [] \<or>
                (parentAgent (st ! child) \<noteq> None \<and> parentAgent (st ! child) \<noteq> Some this)")
    case True
    then show ?thesis by auto
  next
    case False
    let ?st = "st[child := (st ! child)\<lparr>parentAgent := Some this,
                                        messagesOf := messagesOf (st ! this)\<rparr>]"
    from False Cons.prems have c: "c \<in> set cs" by auto
    have "subAgents (?st ! c) = subAgents (st ! c)"
      using Cons.prems(3) c by (cases "c = child") auto
    with Cons.prems have "subAgents (?st ! c) \<noteq> []" by simp
    moreover have "\<forall>x\<in>set cs. x < length ?st" using Cons.prems(3) by simp
    ultimately have "fst (wireChildren this cs ?st) \<noteq> None"
      using Cons.IH[OF c] by blast
    with False show ?thesis by simp
  qed
qed

lemma newAgent_nested_child:
  assumes "c \<in> set (cfgSubAgents cfg)" and "subAgents (st ! c) \<noteq> []"
    and "\<forall>x\<in>set (cfgSubAgents cfg). x < length st"
  shows "\<exists>err. fst (newAgent cfg st) = Inl err"
proof (cases "cfgParentAgent cfg")
  case (Some p)
  with assms(1) have "fst (newAgent cfg st) = Inl nestedSubAgentsError"
    by (intro newAgent_parent_and_children) auto
  then show ?thesis ..
next
  case None
  let ?obj = "\<lparr>agentName = cfgName cfg, subAgents = cfgSubAgents cfg,
                 parentAgent = cfgParentAgent cfg,
                 disallowTransferToParent = cfgDisallowTransferToParent cfg,
                 disallowTransferToPeers = cfgDisallowTransferToPeers cfg,
                 messagesOf = length st\<rparr>"
  have c: "c < length st" using assms(1,3) by blast
  have "fst (wireChildren (length st) (cfgSubAgents cfg) (st @ [?obj])) \<noteq> None"
    using assms c by (intro wireChildren_nested[of c]) (auto simp: nth_append)
  then obtain err st' where "wireChildren (length st) (cfgSubAgents cfg) (st @ [?obj]) = (Some err, st')"
    by (cases "wireChildren (length st) (cfgSubAgents cfg) (st @ [?obj])") auto
  with None show ?thesis
    by (simp add: newAgent_def wireAgentTree_def Let_def)
qed

text \<open>
  Claim C10.  The constructor does not keep every tree at two levels: it never asks
  whether the agent named as \<^verbatim>\<open>parentAgent\<close> has a parent of its own.  The three
  constructions below all succeed, and leave \<open>math\<close> with both a parent (\<open>root\<close>) and a
  child (\<open>geometry\<close>), the state the first check exists to refuse; \<open>geometry\<close> lies two
  links below the root.
\<close>

theorem nested_tree_constructed:
  "fst (newAgent (leafConfig ''math'') []) = Inr 0 \<and>
   fst (newAgent ((leafConfig ''root'')\<lparr>cfgSubAgents := [0]\<rparr>)
          (snd (newAgent (leafConfig ''math'') []))) = Inr 1 \<and>
   fst (newAgent ((leafConfig ''geometry'')\<lparr>cfgParentAgent := Some 0\<rparr>) twoLevels) = Inr 2 \<and>
   parentAgent (threeLevels ! 2) = Some 0 \<and>
   parentAgent (threeLevels ! 0) = Some 1 \<and>
   subAgents (threeLevels ! 0) = [2] \<and>
   subAgents (threeLevels ! 1) = [0] \<and>
   getRootAgent threeLevels 2 = Some 1 \<and>
   depthBelowRoot threeLevels 2 = Some 2"
  by (simp add: threeLevels_def twoLevels_eq tree_defs)

section \<open>Properties of the agent loop\<close>

lemmas loop_defs = streamInternal_def resolveInitialActiveAgent_def pendingTarget_def
  executeTools_def attemptTool_def errorResult_def appendMessage_def
  buildRuntimeForActiveAgent_def getTransferTargets_def transferToAgentTool_def
  queueTransfer_def MAX_CONSECUTIVE_TRANSFERS_def truthy_def registerCallbacks_def
  slidingWindowAfterInvocation_def slidingWindowAfterModelCall_def emptyRegistry_def
  applyManagement_def findAgent_def nameOrUnnamed_def quote_def defaultConfig_def

lemmas tool_defs = attemptTool_def errorResult_def truthy_def emptyRegistry_def toolEnv_def
  throwingTool_def silentTool_def toolFailed_def quote_def

subsection \<open>Failed tool uses become error results\<close>

lemma attemptTool_failed:
  assumes "toolFailed toolRegistry tu activeAgent s"
  shows "status (fst (fst (attemptTool (find (\<lambda>t. toolName t = name tu) toolRegistry) tu activeAgent s)))
           = StatusError \<and>
         toolUseId (fst (fst (attemptTool (find (\<lambda>t. toolName t = name tu) toolRegistry) tu activeAgent s)))
           = useId tu"
  using assms
  by (auto simp: toolFailed_def attemptTool_def errorResult_def
           split: option.splits sum.splits prod.splits)

lemma executeTool_never_throws:
  "executeTool n env tu toolRegistry activeAgent s \<noteq> Some (Threw err, s')"
proof (induction n arbitrary: s)
  case 0
  show ?case by simp
next
  case (Suc n)
  obtain res e s1 where a: "attemptTool (find (\<lambda>t. toolName t = name tu) toolRegistry) tu activeAgent s
                              = ((res, e), s1)"
    by (metis surj_pair)
  obtain d s2 where c: "invokeCallbacks (afterToolCall (hooks env))
                  \<lparr>toolUse = tu,
                   toolFound = (find (\<lambda>t. toolName t = name tu) toolRegistry \<noteq> None),
                   toolResult = res, toolError = e, toolFlags = Map.empty\<rparr> s1 = (d, s2)"
    by (metis surj_pair)
  show ?case
  proof (cases d)
    case (Inl err')
    with a c show ?thesis by simp
  next
    case (Inr ev)
    with a c Suc[of s2] show ?thesis by simp
  qed
qed

lemma executeTool_result:
  "executeTool k env tu toolRegistry activeAgent s = Some (Returned r, s') \<Longrightarrow>
     \<exists>si. r = fst (fst (attemptTool (find (\<lambda>t. toolName t = name tu) toolRegistry) tu activeAgent si))"
proof (induction k arbitrary: s)
  case 0
  then show ?case by simp
next
  case (Suc k)
  obtain res e s1 where a: "attemptTool (find (\<lambda>t. toolName t = name tu) toolRegistry) tu activeAgent s
                              = ((res, e), s1)"
    by (metis surj_pair)
  obtain d s2 where c: "invokeCallbacks (afterToolCall (hooks env))
                  \<lparr>toolUse = tu,
                   toolFound = (find (\<lambda>t. toolName t = name tu) toolRegistry \<noteq> None),
                   toolResult = res, toolError = e, toolFlags = Map.empty\<rparr> s1 = (d, s2)"
    by (metis surj_pair)
  show ?case
  proof (cases d)
    case (Inl err')
    with a c Suc.prems show ?thesis by simp
  next
    case (Inr ev)
    show ?thesis
    proof (cases "truthy (toolFlags ev ''retry'')")
      case True
      with a c Inr Suc.prems have "executeTool k env tu toolRegistry activeAgent s2 = Some (Returned r, s')"
        by simp
      from Suc.IH[OF this] show ?thesis .
    next
      case False
      with a c Inr Suc.prems have "r = res" by simp
      with a have "r = fst (fst (attemptTool (find (\<lambda>t. toolName t = name tu) toolRegistry) tu activeAgent s))"
        by simp
      then show ?thesis by blast
    qed
  qed
qed

lemma executeEach_Returned:
  assumes "executeEach k env (tu # tus) toolRegistry activeAgent s = Some (Returned rs, s')"
  obtains r rs' s1 where "executeTool k env tu toolRegistry activeAgent s = Some (Returned r, s1)"
    and "executeEach k env tus toolRegistry activeAgent s1 = Some (Returned rs', s')"
    and "rs = r # rs'"
  using assms
  by (auto split: option.splits outcome.splits prod.splits)

lemma executeEach_results:
  "executeEach k env tus toolRegistry activeAgent s = Some (Returned rs, s') \<Longrightarrow>
     length rs = length tus \<and>
     (\<forall>i < length tus. \<exists>si.
        rs ! i = fst (fst (attemptTool (find (\<lambda>t. toolName t = name (tus ! i)) toolRegistry)
                             (tus ! i) activeAgent si)))"
proof (induction tus arbitrary: s rs)
  case Nil
  then show ?case by simp
next
  case (Cons tu tus)
  from Cons.prems obtain r rs' s1 where
    t: "executeTool k env tu toolRegistry activeAgent s = Some (Returned r, s1)"
    and e: "executeEach k env tus toolRegistry activeAgent s1 = Some (Returned rs', s')"
    and rs: "rs = r # rs'"
    by (rule executeEach_Returned)
  from Cons.IH[OF e] have len: "length rs' = length tus"
    and ih: "\<forall>i < length tus. \<exists>si.
        rs' ! i = fst (fst (attemptTool (find (\<lambda>t. toolName t = name (tus ! i)) toolRegistry)
                             (tus ! i) activeAgent si))"
    by simp_all
  have "\<exists>si. rs ! i = fst (fst (attemptTool (find (\<lambda>t. toolName t = name ((tu # tus) ! i)) toolRegistry)
                             ((tu # tus) ! i) activeAgent si))"
    if "i < length (tu # tus)" for i
  proof (cases i)
    case 0
    with executeTool_result[OF t] rs show ?thesis by simp
  next
    case (Suc i')
    with that ih rs show ?thesis by simp
  qed
  with len rs show ?case by simp
qed

lemma executeEach_never_throws:
  "executeEach k env tus toolRegistry activeAgent s \<noteq> Some (Threw err, s')"
proof (induction tus arbitrary: s)
  case Nil
  show ?case by simp
next
  case (Cons tu tus)
  show ?case
  proof
    assume a: "executeEach k env (tu # tus) toolRegistry activeAgent s = Some (Threw err, s')"
    show False
    proof (cases "executeTool k env tu toolRegistry activeAgent s")
      case None
      with a show False by simp
    next
      case (Some p)
      obtain out s1 where p: "p = (out, s1)" by (cases p)
      show False
      proof (cases out)
        case (Returned r)
        with a Some p Cons.IH[of s1] show False
          by (auto split: option.splits outcome.splits prod.splits)
      next
        case (Threw e)
        with Some p executeTool_never_throws[of k env tu toolRegistry activeAgent s e s1]
        show False by simp
      next
        case (Aborted e)
        with a Some p show False by simp
      qed
    qed
  qed
qed

lemma executeTool_quiet:
  assumes "\<forall>ev s. toolFlags ev = Map.empty \<longrightarrow>
             (\<exists>ev' s'. invokeCallbacks (afterToolCall (hooks env)) ev s = (Inr ev', s') \<and>
                       \<not> truthy (toolFlags ev' ''retry''))"
  shows "\<exists>r s'. executeTool (Suc n) env tu toolRegistry activeAgent s = Some (Returned r, s')"
proof -
  obtain res e s1 where a: "attemptTool (find (\<lambda>t. toolName t = name tu) toolRegistry) tu activeAgent s
                              = ((res, e), s1)"
    by (metis surj_pair)
  have "toolFlags \<lparr>toolUse = tu,
                   toolFound = (find (\<lambda>t. toolName t = name tu) toolRegistry \<noteq> None),
                   toolResult = res, toolError = e, toolFlags = Map.empty\<rparr> = Map.empty"
    by simp
  with assms obtain ev' s2 where "invokeCallbacks (afterToolCall (hooks env))
                  \<lparr>toolUse = tu,
                   toolFound = (find (\<lambda>t. toolName t = name tu) toolRegistry \<noteq> None),
                   toolResult = res, toolError = e, toolFlags = Map.empty\<rparr> s1 = (Inr ev', s2)"
     and "\<not> truthy (toolFlags ev' ''retry'')"
    by blast
  with a show ?thesis by simp
qed

lemma executeEach_quiet:
  assumes "\<forall>ev s. toolFlags ev = Map.empty \<longrightarrow>
             (\<exists>ev' s'. invokeCallbacks (afterToolCall (hooks env)) ev s = (Inr ev', s') \<and>
                       \<not> truthy (toolFlags ev' ''retry''))"
  shows "\<exists>rs s'. executeEach (Suc n) env tus toolRegistry activeAgent s = Some (Returned rs, s')"
proof (induction tus arbitrary: s)
  case Nil
  show ?case by simp
next
  case (Cons tu tus)
  from executeTool_quiet[OF assms, of n tu toolRegistry activeAgent s] obtain r s1 where
    t: "executeTool (Suc n) env tu toolRegistry activeAgent s = Some (Returned r, s1)" by blast
  from Cons.IH[of s1] obtain rs s' where
    e: "executeEach (Suc n) env tus toolRegistry activeAgent s1 = Some (Returned rs, s')" by blast
  from t e show ?case by (simp del: executeTool.simps)
qed

lemma streamLoop_tool_round:
  assumes m: "invokeModel (Suc n) env activeAgent args s = Some (Returned (msg, ''toolUse''), s1)"
    and t: "executeTools (Suc n) env msg (buildRuntimeForActiveAgent env activeAgent) activeAgent s1
              = Some (Returned trm, s2)"
  shows "(\<exists>nextAgent s3.
            streamLoop (Suc n) env activeAgent args s = streamLoop n env nextAgent None s3 \<and>
            messages s3 =
              messages (appendMessage trm (agentName (agents env ! activeAgent))
                         (appendMessage msg (agentName (agents env ! activeAgent)) s2))) \<or>
         (\<exists>target. pendingTarget s2 = Some target \<and>
                    findAgent (agents env) (rootRef env) target = None)"
proof -
  let ?s = "appendMessage trm (agentName (agents env ! activeAgent))
              (appendMessage msg (agentName (agents env ! activeAgent)) s2)"
  have p: "pendingTarget ?s = pendingTarget s2" by (simp add: pendingTarget_def appendMessage_def)
  show ?thesis
  proof (cases "pendingTarget s2")
    case None
    with m t p have "streamLoop (Suc n) env activeAgent args s = streamLoop n env activeAgent None
        (?s\<lparr>pendingTransferTarget := None, consecutiveTransfers := 0\<rparr>)"
      by (simp del: invokeModel.simps)
    moreover have "messages (?s\<lparr>pendingTransferTarget := None, consecutiveTransfers := 0\<rparr>) = messages ?s"
      by simp
    ultimately show ?thesis by blast
  next
    case (Some target)
    show ?thesis
    proof (cases "findAgent (agents env) (rootRef env) target")
      case None
      with Some show ?thesis by blast
    next
      case (Some nextAgent)
      note f = this
      show ?thesis
      proof (cases "consecutiveTransfers s2 \<ge> MAX_CONSECUTIVE_TRANSFERS")
        case True
        with m t p f \<open>pendingTarget s2 = Some target\<close>
        have "streamLoop (Suc n) env activeAgent args s = streamLoop n env activeAgent None
          (?s\<lparr>pendingTransferTarget := None, consecutiveTransfers := 0\<rparr>)"
          by (simp del: invokeModel.simps)
        moreover have "messages (?s\<lparr>pendingTransferTarget := None, consecutiveTransfers := 0\<rparr>) = messages ?s"
          by simp
        ultimately show ?thesis by blast
      next
        case False
        with m t p f \<open>pendingTarget s2 = Some target\<close>
        have "streamLoop (Suc n) env activeAgent args s = streamLoop n env nextAgent None
          (?s\<lparr>pendingTransferTarget := None,
               activeAgentName := agentName (agents env ! nextAgent),
               consecutiveTransfers := consecutiveTransfers s2 + 1\<rparr>)"
          by (simp del: invokeModel.simps)
        moreover have "messages (?s\<lparr>pendingTransferTarget := None,
               activeAgentName := agentName (agents env ! nextAgent),
               consecutiveTransfers := consecutiveTransfers s2 + 1\<rparr>) = messages ?s"
          by simp
        ultimately show ?thesis by blast
      qed
    qed
  qed
qed

text \<open>
  Claim C6.  For a tool use that fails in one of the three ways (tool not in the registry,
  tool threw, tool ended without a result):

    \<^item> the pass of \<open>executeTool\<close> produces a result block with error status and the
      correlation id of the tool use;
    \<^item> \<open>executeTool\<close> never ends by throwing, whatever the tool and the hooks do; when
      the after-tool-call callbacks neither throw nor ask for a retry of the pass, it returns
      that error result;
    \<^item> \<open>executeTools\<close>, on a message with tool uses, never ends by throwing either; the
      message it returns is a user message with one result block for each tool use, in the
      order of the tool uses, each the block that the last pass of its tool use built: for a
      pass that failed, the error block with the id of the tool use;
    \<^item> when the after-tool-call callbacks, given an event with no flag set, neither throw
      nor ask for a retry, \<open>executeTools\<close> returns such a message;
    \<^item> a round of the loop in which \<open>executeTools\<close> has returned does not end the turn:
      the loop goes on to its next round with the model's message and the tool-result
      message appended to the history, error results included.  (The one throw of that
      part of the round is for a queued transfer whose target is not in the tree.)
\<close>

theorem executeTool_failure_kinds:
  "(toolFailed toolRegistry tu activeAgent s \<longrightarrow>
      status (fst (fst (attemptTool (find (\<lambda>t. toolName t = name tu) toolRegistry) tu activeAgent s)))
        = StatusError \<and>
      toolUseId (fst (fst (attemptTool (find (\<lambda>t. toolName t = name tu) toolRegistry) tu activeAgent s)))
        = useId tu) \<and>
   (\<forall>err s'. executeTool n env tu toolRegistry activeAgent s \<noteq> Some (Threw err, s')) \<and>
   (\<forall>res e s1 ev s2.
      toolFailed toolRegistry tu activeAgent s \<and>
      attemptTool (find (\<lambda>t. toolName t = name tu) toolRegistry) tu activeAgent s = ((res, e), s1) \<and>
      invokeCallbacks (afterToolCall (hooks env))
        \<lparr>toolUse = tu, toolFound = (find (\<lambda>t. toolName t = name tu) toolRegistry \<noteq> None),
         toolResult = res, toolError = e, toolFlags = Map.empty\<rparr> s1 = (Inr ev, s2) \<and>
      \<not> truthy (toolFlags ev ''retry'') \<longrightarrow>
        executeTool (Suc n) env tu toolRegistry activeAgent s = Some (Returned res, s2) \<and>
        status res = StatusError \<and> toolUseId res = useId tu) \<and>
   (\<forall>k msg out s'.
      executeTools k env msg toolRegistry activeAgent s = Some (out, s') \<and>
      toolUseBlocks (content msg) \<noteq> [] \<longrightarrow>
        (\<forall>err. out \<noteq> Threw err) \<and>
        (\<forall>trm. out = Returned trm \<longrightarrow>
           role trm = User \<and>
           (\<exists>rs. content trm = map ToolResultBlock rs \<and>
                 length rs = length (toolUseBlocks (content msg)) \<and>
                 (\<forall>i < length rs.
                    (\<exists>si. rs ! i =
                            fst (fst (attemptTool
                              (find (\<lambda>t. toolName t = name (toolUseBlocks (content msg) ! i)) toolRegistry)
                              (toolUseBlocks (content msg) ! i) activeAgent si)) \<and>
                          (toolFailed toolRegistry (toolUseBlocks (content msg) ! i) activeAgent si \<longrightarrow>
                             status (rs ! i) = StatusError \<and>
                             toolUseId (rs ! i) = useId (toolUseBlocks (content msg) ! i))) \<and>
                    ((\<forall>si. toolFailed toolRegistry (toolUseBlocks (content msg) ! i) activeAgent si) \<longrightarrow>
                       status (rs ! i) = StatusError \<and>
                       toolUseId (rs ! i) = useId (toolUseBlocks (content msg) ! i)))))) \<and>
   ((\<forall>ev st. toolFlags ev = Map.empty \<longrightarrow>
        (\<exists>ev' st'. invokeCallbacks (afterToolCall (hooks env)) ev st = (Inr ev', st') \<and>
                    \<not> truthy (toolFlags ev' ''retry''))) \<longrightarrow>
      (\<forall>msg. toolUseBlocks (content msg) \<noteq> [] \<longrightarrow>
         (\<exists>trm s'. executeTools (Suc n) env msg toolRegistry activeAgent s = Some (Returned trm, s')))) \<and>
   (\<forall>args msg s1 trm s2.
      invokeModel (Suc n) env activeAgent args s = Some (Returned (msg, ''toolUse''), s1) \<and>
      executeTools (Suc n) env msg (buildRuntimeForActiveAgent env activeAgent) activeAgent s1
        = Some (Returned trm, s2) \<longrightarrow>
        (\<exists>nextAgent s3.
            streamLoop (Suc n) env activeAgent args s = streamLoop n env nextAgent None s3 \<and>
            messages s3 =
              messages (appendMessage trm (agentName (agents env ! activeAgent))
                         (appendMessage msg (agentName (agents env ! activeAgent)) s2))) \<or>
        (\<exists>target. pendingTarget s2 = Some target \<and>
                   findAgent (agents env) (rootRef env) target = None))"
proof -
  have c1: "toolFailed toolRegistry tu activeAgent s \<longrightarrow>
      status (fst (fst (attemptTool (find (\<lambda>t. toolName t = name tu) toolRegistry) tu activeAgent s)))
        = StatusError \<and>
      toolUseId (fst (fst (attemptTool (find (\<lambda>t. toolName t = name tu) toolRegistry) tu activeAgent s)))
        = useId tu"
    using attemptTool_failed by blast
  have c2: "\<forall>err s'. executeTool n env tu toolRegistry activeAgent s \<noteq> Some (Threw err, s')"
    using executeTool_never_throws by blast
  have c3: "executeTool (Suc n) env tu toolRegistry activeAgent s = Some (Returned res, s2) \<and>
        status res = StatusError \<and> toolUseId res = useId tu"
    if a: "toolFailed toolRegistry tu activeAgent s \<and>
      attemptTool (find (\<lambda>t. toolName t = name tu) toolRegistry) tu activeAgent s = ((res, e), s1) \<and>
      invokeCallbacks (afterToolCall (hooks env))
        \<lparr>toolUse = tu, toolFound = (find (\<lambda>t. toolName t = name tu) toolRegistry \<noteq> None),
         toolResult = res, toolError = e, toolFlags = Map.empty\<rparr> s1 = (Inr ev, s2) \<and>
      \<not> truthy (toolFlags ev ''retry'')" for res e s1 ev s2
  proof -
    from a have "executeTool (Suc n) env tu toolRegistry activeAgent s = Some (Returned res, s2)"
      by simp
    moreover from a attemptTool_failed[of toolRegistry tu activeAgent s]
    have "status res = StatusError" and "toolUseId res = useId tu" by simp_all
    ultimately show ?thesis by simp
  qed
  have c4: "(\<forall>err. out \<noteq> Threw err) \<and>
        (\<forall>trm. out = Returned trm \<longrightarrow>
           role trm = User \<and>
           (\<exists>rs. content trm = map ToolResultBlock rs \<and>
                 length rs = length (toolUseBlocks (content msg)) \<and>
                 (\<forall>i < length rs.
                    (\<exists>si. rs ! i =
                            fst (fst (attemptTool
                              (find (\<lambda>t. toolName t = name (toolUseBlocks (content msg) ! i)) toolRegistry)
                              (toolUseBlocks (content msg) ! i) activeAgent si)) \<and>
                          (toolFailed toolRegistry (toolUseBlocks (content msg) ! i) activeAgent si \<longrightarrow>
                             status (rs ! i) = StatusError \<and>
                             toolUseId (rs ! i) = useId (toolUseBlocks (content msg) ! i))) \<and>
                    ((\<forall>si. toolFailed toolRegistry (toolUseBlocks (content msg) ! i) activeAgent si) \<longrightarrow>
                       status (rs ! i) = StatusError \<and>
                       toolUseId (rs ! i) = useId (toolUseBlocks (content msg) ! i)))))"
    if a: "executeTools k env msg toolRegistry activeAgent s = Some (out, s') \<and>
      toolUseBlocks (content msg) \<noteq> []" for k msg out s'
  proof (intro conjI allI impI)
    let ?tus = "toolUseBlocks (content msg)"
    from a have ne: "?tus \<noteq> []" by simp
    fix err
    show "out \<noteq> Threw err"
    proof
      assume "out = Threw err"
      with a ne have "executeEach k env ?tus toolRegistry activeAgent s = Some (Threw err, s')"
        by (auto simp: executeTools_def split: option.splits outcome.splits prod.splits)
      with executeEach_never_throws show False by blast
    qed
  next
    let ?tus = "toolUseBlocks (content msg)"
    from a have ne: "?tus \<noteq> []" by simp
    fix trm
    assume r: "out = Returned trm"
    with a ne obtain rs where
      e: "executeEach k env ?tus toolRegistry activeAgent s = Some (Returned rs, s')"
      and trm: "trm = \<lparr>role = User, content = map ToolResultBlock rs, author = None\<rparr>"
      by (auto simp: executeTools_def split: option.splits outcome.splits prod.splits)
    show "role trm = User" by (simp add: trm)
    from executeEach_results[OF e] have len: "length rs = length ?tus"
      and each: "\<forall>i < length ?tus. \<exists>si.
        rs ! i = fst (fst (attemptTool (find (\<lambda>t. toolName t = name (?tus ! i)) toolRegistry)
                             (?tus ! i) activeAgent si))"
      by simp_all
    have "(\<exists>si. rs ! i =
                            fst (fst (attemptTool
                              (find (\<lambda>t. toolName t = name (?tus ! i)) toolRegistry)
                              (?tus ! i) activeAgent si)) \<and>
                          (toolFailed toolRegistry (?tus ! i) activeAgent si \<longrightarrow>
                             status (rs ! i) = StatusError \<and>
                             toolUseId (rs ! i) = useId (?tus ! i))) \<and>
                    ((\<forall>si. toolFailed toolRegistry (?tus ! i) activeAgent si) \<longrightarrow>
                       status (rs ! i) = StatusError \<and>
                       toolUseId (rs ! i) = useId (?tus ! i))"
      if "i < length rs" for i
    proof -
      from that len each obtain si where
        si: "rs ! i = fst (fst (attemptTool (find (\<lambda>t. toolName t = name (?tus ! i)) toolRegistry)
                             (?tus ! i) activeAgent si))"
        by auto
      have f: "toolFailed toolRegistry (?tus ! i) activeAgent si \<longrightarrow>
                 status (rs ! i) = StatusError \<and> toolUseId (rs ! i) = useId (?tus ! i)"
        using attemptTool_failed[of toolRegistry "?tus ! i" activeAgent si] si by simp
      from si f show ?thesis by blast
    qed
    with trm len show "\<exists>rs. content trm = map ToolResultBlock rs \<and>
                 length rs = length ?tus \<and>
                 (\<forall>i < length rs.
                    (\<exists>si. rs ! i =
                            fst (fst (attemptTool
                              (find (\<lambda>t. toolName t = name (?tus ! i)) toolRegistry)
                              (?tus ! i) activeAgent si)) \<and>
                          (toolFailed toolRegistry (?tus ! i) activeAgent si \<longrightarrow>
                             status (rs ! i) = StatusError \<and>
                             toolUseId (rs ! i) = useId (?tus ! i))) \<and>
                    ((\<forall>si. toolFailed toolRegistry (?tus ! i) activeAgent si) \<longrightarrow>
                       status (rs ! i) = StatusError \<and>
                       toolUseId (rs ! i) = useId (?tus ! i)))"
      by (intro exI[of _ rs]) simp
  qed
  have c5: "\<exists>trm s'. executeTools (Suc n) env msg toolRegistry activeAgent s = Some (Returned trm, s')"
    if q: "\<forall>ev st. toolFlags ev = Map.empty \<longrightarrow>
        (\<exists>ev' st'. invokeCallbacks (afterToolCall (hooks env)) ev st = (Inr ev', st') \<and>
                    \<not> truthy (toolFlags ev' ''retry''))"
      and ne: "toolUseBlocks (content msg) \<noteq> []" for msg
  proof -
    from executeEach_quiet[OF q, of n "toolUseBlocks (content msg)" toolRegistry activeAgent s]
    obtain rs s' where
      "executeEach (Suc n) env (toolUseBlocks (content msg)) toolRegistry activeAgent s
         = Some (Returned rs, s')" by blast
    with ne show ?thesis by (simp add: executeTools_def del: executeEach.simps executeTool.simps)
  qed
  have c6: "(\<exists>nextAgent s3.
            streamLoop (Suc n) env activeAgent args s = streamLoop n env nextAgent None s3 \<and>
            messages s3 =
              messages (appendMessage trm (agentName (agents env ! activeAgent))
                         (appendMessage msg (agentName (agents env ! activeAgent)) s2))) \<or>
        (\<exists>target. pendingTarget s2 = Some target \<and>
                   findAgent (agents env) (rootRef env) target = None)"
    if "invokeModel (Suc n) env activeAgent args s = Some (Returned (msg, ''toolUse''), s1) \<and>
      executeTools (Suc n) env msg (buildRuntimeForActiveAgent env activeAgent) activeAgent s1
        = Some (Returned trm, s2)" for args msg s1 trm s2
    using that streamLoop_tool_round[of n env activeAgent args s msg s1 trm s2] by blast
  from c1 c2 c3 c4 c5 c6 show ?thesis by blast
qed

theorem executeTool_failure_kinds_witness:
  "executeTool 1 toolEnv \<lparr>name = ''missing'', useId = ''id-1'', input = JNull\<rparr>
      [throwingTool, silentTool] 0 initialState =
     Some (Returned (errorResult ''id-1'' (''Tool '' @ quote @ ''missing'' @ quote @ '' not found in registry'') None),
           initialState) \<and>
   status (errorResult ''id-1'' (''Tool '' @ quote @ ''missing'' @ quote @ '' not found in registry'') None)
     = StatusError \<and>
   executeTool 1 toolEnv \<lparr>name = ''thrower'', useId = ''id-2'', input = JNull\<rparr>
      [throwingTool, silentTool] 0 initialState =
     Some (Returned (errorResult ''id-2'' ''boom'' (Some (Error ''boom''))), initialState) \<and>
   executeTool 1 toolEnv \<lparr>name = ''silent'', useId = ''id-3'', input = JNull\<rparr>
      [throwingTool, silentTool] 0 initialState =
     Some (Returned (errorResult ''id-3'' (''Tool '' @ quote @ ''silent'' @ quote @ '' did not return a result'') None),
           initialState) \<and>
   executeTools 1 toolEnv failingToolsMessage [throwingTool, silentTool] 0 initialState =
     Some (Returned failingToolsResults, initialState) \<and>
   streamLoop 2 failingToolsEnv 0 (Some (ArgText ''go'')) initialState =
     Some (Returned \<lparr>stopReason = ''endTurn'', lastMessage = textMessage Assistant ''done''\<rparr>,
           \<lparr>messages = [textMessage User ''go'', failingToolsMessage, failingToolsResults,
                        textMessage Assistant ''done''],
            activeAgentName = None, pendingTransferTarget = None, consecutiveTransfers = 0\<rparr>)"
proof -
  let ?tu = "\<lparr>name = ''missing'', useId = ''id-1'', input = JNull\<rparr>"
  let ?res = "errorResult ''id-1'' (''Tool '' @ quote @ ''missing'' @ quote @ '' not found in registry'') None"
  let ?ev = "\<lparr>toolUse = ?tu, toolFound = (find (\<lambda>t. toolName t = name ?tu) [throwingTool, silentTool] \<noteq> None),
              toolResult = ?res, toolError = None, toolFlags = Map.empty\<rparr>"
  have f: "toolFailed [throwingTool, silentTool] ?tu 0 initialState \<and>
           attemptTool (find (\<lambda>t. toolName t = name ?tu) [throwingTool, silentTool]) ?tu 0 initialState
             = ((?res, None), initialState) \<and>
           invokeCallbacks (afterToolCall (hooks toolEnv)) ?ev initialState = (Inr ?ev, initialState) \<and>
           \<not> truthy (toolFlags ?ev ''retry'')"
    by (simp add: tool_defs)
  from executeTool_failure_kinds
         [of "[throwingTool, silentTool]" ?tu 0 initialState 0 toolEnv,
          THEN conjunct2, THEN conjunct2, THEN conjunct1, rule_format, OF f]
  have one: "executeTool 1 toolEnv ?tu [throwingTool, silentTool] 0 initialState
          = Some (Returned ?res, initialState) \<and> status ?res = StatusError"
    by simp
  have q: "\<forall>ev st. toolFlags ev = Map.empty \<longrightarrow>
        (\<exists>ev' st'. invokeCallbacks (afterToolCall (hooks toolEnv)) ev st = (Inr ev', st') \<and>
                    \<not> truthy (toolFlags ev' ''retry''))"
    by (simp add: tool_defs)
  have ne: "toolUseBlocks (content failingToolsMessage) \<noteq> []"
    by (simp add: failingToolsMessage_def)
  from executeTool_failure_kinds
         [of "[throwingTool, silentTool]" ?tu 0 initialState 0 toolEnv,
          THEN conjunct2, THEN conjunct2, THEN conjunct2, THEN conjunct2, THEN conjunct1,
          THEN mp, OF q, THEN spec[where x = failingToolsMessage], THEN mp, OF ne]
  have "\<exists>trm s'. executeTools 1 toolEnv failingToolsMessage [throwingTool, silentTool] 0 initialState
          = Some (Returned trm, s')"
    by simp
  then have all: "executeTools 1 toolEnv failingToolsMessage [throwingTool, silentTool] 0 initialState =
     Some (Returned failingToolsResults, initialState)"
    by (simp add: executeTools_def failingToolsMessage_def failingToolsResults_def tool_defs)
  have run: "streamLoop 2 failingToolsEnv 0 (Some (ArgText ''go'')) initialState =
     Some (Returned \<lparr>stopReason = ''endTurn'', lastMessage = textMessage Assistant ''done''\<rparr>,
           \<lparr>messages = [textMessage User ''go'', failingToolsMessage, failingToolsResults,
                        textMessage Assistant ''done''],
            activeAgentName = None, pendingTransferTarget = None, consecutiveTransfers = 0\<rparr>)"
    by (simp add: loop_defs failingToolsEnv_def failingToolsModel_def failingToolsMessage_def
          failingToolsResults_def throwingTool_def silentTool_def initialState_def singleAgent_def
          tree_defs sample_defs hasToolResult_def numeral_2_eq_2)
  from one all run show ?thesis by (simp add: tool_defs)
qed

subsection \<open>Context overflow and the retry flag\<close>

text \<open>
  Claim C3.  On a context-window overflow error of the model, the conversation manager's
  callback reduces the history and sets the property \<open>retryModelCall\<close> of the event;
  \<open>invokeModel\<close> reads the property \<open>retry\<close>, which nobody has set.  So with the
  conversation manager as the only after-model-call callback the model call is never
  issued again: \<open>invokeModel\<close> ends by throwing the overflow error again, on the reduced
  history (or the reduction itself fails and its error ends the invocation).
\<close>

theorem overflow_not_retried:
  assumes "afterModelCall (hooks env) = [slidingWindowAfterModelCall cfg]"
    and "s1 = fold (\<lambda>m. appendMessage m None) (normalizeInput args) s"
    and "agentModel env activeAgent (messages s1) = Inl (ContextWindowOverflowError m)"
  shows "invokeModel (Suc n) env activeAgent args s =
     (case reduceContext cfg (messages s1) of
        Inl err \<Rightarrow> Some (Aborted err, s1)
      | Inr ms \<Rightarrow> Some (Threw (ContextWindowOverflowError m), s1\<lparr>messages := ms\<rparr>))"
  using assms
  by (simp add: slidingWindowAfterModelCall_def truthy_def split: sum.splits)

text \<open>
  The failing input: a history with a large tool result, a model that overflows until the
  result is truncated.  The overflow error reaches the caller although the reduced history
  would have been accepted; the event carries \<open>retryModelCall\<close> and no \<open>retry\<close>.
\<close>

theorem overflow_rethrown:
  "invokeModel 2 overflowEnv 0 (Some (ArgText ''continue''))
       (initialState\<lparr>messages := largeHistory\<rparr>) =
     Some (Threw (ContextWindowOverflowError ''Input is too long''),
           initialState\<lparr>messages :=
             [textMessage User ''question'', toolUseMessage ''tool1'' ''id-1'',
              toolResultMessage ''id-1'' StatusError ''The tool result was too large!'',
              textMessage User ''continue'']\<rparr>) \<and>
   fst (invokeCallbacks (afterModelCall (hooks overflowEnv))
          \<lparr>stopData = None, modelError = Some (ContextWindowOverflowError ''Input is too long''),
           modelFlags = Map.empty\<rparr>
          (initialState\<lparr>messages := largeHistory @ [textMessage User ''continue'']\<rparr>)) =
     Inr \<lparr>stopData = None, modelError = Some (ContextWindowOverflowError ''Input is too long''),
          modelFlags = [''retryModelCall'' \<mapsto> True]\<rparr> \<and>
   overflowModel 0
       [textMessage User ''question'', toolUseMessage ''tool1'' ''id-1'',
        toolResultMessage ''id-1'' StatusError ''The tool result was too large!'',
        textMessage User ''continue''] =
     Inr (textMessage Assistant ''answer'', ''endTurn'')"
proof -
  have h: "afterModelCall (hooks overflowEnv) = [slidingWindowAfterModelCall defaultConfig]"
    by (simp add: overflowEnv_def registerCallbacks_def emptyRegistry_def)
  have m: "agentModel overflowEnv 0
             (messages (fold (\<lambda>m. appendMessage m None) (normalizeInput (Some (ArgText ''continue'')))
                         (initialState\<lparr>messages := largeHistory\<rparr>)))
           = Inl (ContextWindowOverflowError ''Input is too long'')"
    by (simp add: overflowEnv_def overflowModel_def largeResult_def largeHistory_def
          initialState_def sample_defs appendMessage_def toolResultTooLargeMessage_def)
  from overflow_not_retried[OF h refl m, of 1]
  show ?thesis
    by (simp add: loop_defs eval_defs overflowEnv_def overflowModel_def largeResult_def
          largeHistory_def initialState_def sample_defs numeral_2_eq_2)
qed

subsection \<open>The transfer counter across invocations\<close>

text \<open>The round that ends an invocation leaves the counter as the model call left it.\<close>

lemma streamLoop_final_round:
  assumes "invokeModel (Suc n) env activeAgent args s = Some (Returned (msg, reason), s1)"
    and "reason \<noteq> ''toolUse''"
  shows "\<exists>s'. streamLoop (Suc n) env activeAgent args s =
                Some (Returned \<lparr>stopReason = reason, lastMessage = msg\<rparr>, s') \<and>
              consecutiveTransfers s' = consecutiveTransfers s1"
  using assms by (simp add: appendMessage_def del: invokeModel.simps)

text \<open>
  Claim C5.  The counter of consecutive transfers is set to 0 by a round that runs tools
  and queues no transfer, and by nothing else: the round that ends the invocation (a stop
  reason other than \<open>toolUse\<close>) returns without touching it, and nothing resets it when
  an invocation starts.  In the hand-off below the root transfers to \<open>math\<close> and \<open>math\<close>
  answers: the invocation completes, its last round made no transfer, and the counter is
  still 1.
\<close>

theorem counter_survives_invocation:
  "streamInternal 2 handoffEnv (ArgText ''solve this'') 1 initialState =
     Some (Returned \<lparr>stopReason = ''endTurn'',
                     lastMessage = textMessage Assistant ''Math specialist answer''\<rparr>,
           \<lparr>messages =
              [textMessage User ''solve this'',
               (transferMessage ''t1'' ''math'')\<lparr>author := Some ''root''\<rparr>,
               \<lparr>role = User,
                content = [ToolResultBlock
                  \<lparr>toolUseId = ''t1'', status = StatusSuccess,
                   resultContent = [JsonContent (JObj [(''success'', JBool True),
                      (''action'', JStr ''transfer_to_agent''), (''targetAgentName'', JStr ''math'')])],
                   resultError = None\<rparr>],
                author = Some ''root''\<rparr>,
               (textMessage Assistant ''Math specialist answer'')\<lparr>author := Some ''math''\<rparr>],
            activeAgentName = Some ''math'', pendingTransferTarget = None,
            consecutiveTransfers = 1\<rparr>)"
  by (simp add: loop_defs handoffEnv_def handoffModel_def initialState_def twoLevels_eq
        sample_defs transferMessage_def numeral_2_eq_2)

text \<open>
  The count carries over from one invocation to the next.  In the back-and-forth
  conversation an invocation that starts with fewer than eight transfers counted adds one;
  one that starts with eight counted has its transfer refused by the guard.
\<close>

lemmas pp_defs = loop_defs pingPongEnv_def pingPongModel_def otherAgent_def twoLevels_eq
  sample_defs transferMessage_def transferResult_def hasToolResult_def numeral_2_eq_2

lemma pingPong_from_root:
  assumes "consecutiveTransfers s < 8" and "pendingTransferTarget s = None"
    and "activeAgentName s = None \<or> activeAgentName s = Some ''root''"
  shows "streamInternal 2 pingPongEnv (ArgText q) 1 s =
     Some (Returned \<lparr>stopReason = ''endTurn'', lastMessage = textMessage Assistant ''answer''\<rparr>,
           s\<lparr>messages := messages s @
                  [textMessage User q, (transferMessage ''t1'' ''math'')\<lparr>author := Some ''root''\<rparr>,
                   transferResult ''math'' ''root'',
                   (textMessage Assistant ''answer'')\<lparr>author := Some ''math''\<rparr>],
              activeAgentName := Some ''math'',
              consecutiveTransfers := consecutiveTransfers s + 1\<rparr>)"
  using assms by (auto simp: pp_defs)

lemma pingPong_from_math:
  assumes "consecutiveTransfers s < 8" and "pendingTransferTarget s = None"
    and "activeAgentName s = Some ''math''"
  shows "streamInternal 2 pingPongEnv (ArgText q) 1 s =
     Some (Returned \<lparr>stopReason = ''endTurn'', lastMessage = textMessage Assistant ''answer''\<rparr>,
           s\<lparr>messages := messages s @
                  [textMessage User q, (transferMessage ''t1'' ''root'')\<lparr>author := Some ''math''\<rparr>,
                   transferResult ''root'' ''math'',
                   (textMessage Assistant ''answer'')\<lparr>author := Some ''root''\<rparr>],
              activeAgentName := Some ''root'',
              consecutiveTransfers := consecutiveTransfers s + 1\<rparr>)"
  using assms by (auto simp: pp_defs)


lemma pingPong_refused:
  assumes "consecutiveTransfers s = 8" and "pendingTransferTarget s = None"
    and "activeAgentName s = Some ''root''"
  shows "streamInternal 2 pingPongEnv (ArgText q) 1 s =
     Some (Returned \<lparr>stopReason = ''endTurn'', lastMessage = textMessage Assistant ''answer''\<rparr>,
           s\<lparr>messages := messages s @
                  [textMessage User q, (transferMessage ''t1'' ''math'')\<lparr>author := Some ''root''\<rparr>,
                   guardResult ''root'',
                   (textMessage Assistant ''answer'')\<lparr>author := Some ''root''\<rparr>],
              consecutiveTransfers := 0\<rparr>)"
  using assms by (auto simp: pp_defs guardResult_def)

lemma pingPong_counts:
  "k \<le> 8 \<Longrightarrow>
     \<exists>s'. invokeRepeatedly k pingPongEnv initialState = Some s' \<and>
          consecutiveTransfers s' = k \<and> pendingTransferTarget s' = None \<and>
          activeAgentName s' = (if k = 0 then None else if even k then Some ''root'' else Some ''math'')"
proof (induction k)
  case 0
  show ?case by (simp add: initialState_def)
next
  case (Suc k)
  then obtain s' where s': "invokeRepeatedly k pingPongEnv initialState = Some s'"
      "consecutiveTransfers s' = k" "pendingTransferTarget s' = None"
      "activeAgentName s' = (if k = 0 then None else if even k then Some ''root'' else Some ''math'')"
    by auto
  have lt: "consecutiveTransfers s' < 8" using s'(2) Suc.prems by simp
  have r: "rootRef pingPongEnv = 1" by (simp add: pingPongEnv_def)
  show ?case
  proof (cases "k = 0 \<or> even k")
    case True
    then have "activeAgentName s' = None \<or> activeAgentName s' = Some ''root''"
      using s'(4) by auto
    from pingPong_from_root[OF lt s'(3) this, of "''question''"] s' True r
    show ?thesis by auto
  next
    case False
    then have "activeAgentName s' = Some ''math''" using s'(4) by auto
    from pingPong_from_math[OF lt s'(3) this, of "''question''"] s' False r
    show ?thesis by auto
  qed
qed

text \<open>
  Eight invocations, one transfer each, leave the counter at 8.  The ninth invocation asks
  for its first transfer and gets the error of the guard, \<open>Transfer guard triggered after
  8 consecutive transfers in one invocation\<close>; the root stays active and answers itself.
\<close>

theorem transfer_refused_in_ninth_invocation:
  "\<exists>s8. invokeRepeatedly 8 pingPongEnv initialState = Some s8 \<and>
         consecutiveTransfers s8 = 8 \<and> activeAgentName s8 = Some ''root'' \<and>
         streamInternal 2 pingPongEnv (ArgText ''ninth question'') 1 s8 =
           Some (Returned \<lparr>stopReason = ''endTurn'', lastMessage = textMessage Assistant ''answer''\<rparr>,
                 s8\<lparr>messages := messages s8 @
                        [textMessage User ''ninth question'',
                         (transferMessage ''t1'' ''math'')\<lparr>author := Some ''root''\<rparr>,
                         guardResult ''root'',
                         (textMessage Assistant ''answer'')\<lparr>author := Some ''root''\<rparr>],
                    consecutiveTransfers := 0\<rparr>)"
proof -
  from pingPong_counts[of 8] obtain s8 where s8:
    "invokeRepeatedly 8 pingPongEnv initialState = Some s8" "consecutiveTransfers s8 = 8"
    "pendingTransferTarget s8 = None" "activeAgentName s8 = Some ''root''"
    by auto
  from pingPong_refused[OF s8(2,3,4), of "''ninth question''"] s8 show ?thesis by blast
qed

end
